theory Spec2Isabelle
  imports Main "HOL-Library.Sublist"
begin

section \<open>Strings and the string primitives the program uses\<close>

text \<open>
  A line is a \<open>string\<close>: a list of characters with codes 0..255. The program's strings
  are JavaScript strings; the model covers the code units below 256, so the line
  terminators U+2028 and U+2029 and the white space above that range are outside it.
  Distances are \<open>nat\<close>: the program counts them in numbers that are exact far beyond
  any distance a README can reach.
\<close>

type_synonym line = string
type_synonym docblock = "line list"

definition nl :: char where "nl = CHR 0x0A"
definition cr :: char where "cr = CHR 0x0D"
definition tab :: char where "tab = CHR 0x09"
definition sp :: char where "sp = CHR 0x20"

text \<open>White space as \<open>String.prototype.trim\<close> sees it (tab, LF, VT, FF, CR, space, NBSP).\<close>

definition js_space :: "char \<Rightarrow> bool" where
  "js_space c = (c \<in> set [CHR 0x09, CHR 0x0A, CHR 0x0B, CHR 0x0C, CHR 0x0D, CHR 0x20, CHR 0xA0])"

definition trim :: "string \<Rightarrow> string" where
  "trim s = rev (dropWhile js_space (rev (dropWhile js_space s)))"

text \<open>\<open>xs.join(sep)\<close>.\<close>

fun join :: "string \<Rightarrow> string list \<Rightarrow> string" where
  "join sep [] = []"
| "join sep [x] = x"
| "join sep (x # y # ys) = x @ sep @ join sep (y # ys)"

text \<open>\<open>s.split(/[\r\n]/g)\<close>: every single CR or LF ends a piece; the result is never empty.\<close>

fun split_lines :: "string \<Rightarrow> line list" where
  "split_lines [] = [[]]"
| "split_lines (c # cs) =
     (if c = nl \<or> c = cr then [] # split_lines cs
      else (case split_lines cs of [] \<Rightarrow> [[c]] | x # xs \<Rightarrow> (c # x) # xs))"

text \<open>\<open>xs[i]\<close>, where reading outside the array gives \<open>undefined\<close> (here \<open>None\<close>).\<close>

definition at :: "'a list \<Rightarrow> nat \<Rightarrow> 'a option" where
  "at xs i = (if i < length xs then Some (xs ! i) else None)"

text \<open>\<open>xs.splice(i, 0, x)\<close> for \<open>i\<close> within the array: insert \<open>x\<close> before position \<open>i\<close>.\<close>

definition splice_in :: "'a list \<Rightarrow> nat \<Rightarrow> 'a \<Rightarrow> 'a list" where
  "splice_in xs i x = take i xs @ x # drop i xs"

section \<open>Regular expressions of the program\<close>

text \<open>
  The four regular expressions of the program are sequences of single characters or
  character classes, each taken once, optionally (\<open>?\<close>) or any number of times (\<open>*\<close>).
  \<open>matches r s\<close> is the backtracking match of the whole of \<open>s\<close> against \<open>r\<close>
  (\<open>^r$\<close> without the multiline flag).
\<close>

datatype cls = In "char list" | NotIn "char list"

fun holds :: "cls \<Rightarrow> char \<Rightarrow> bool" where
  "holds (In cs) c = (c \<in> set cs)"
| "holds (NotIn cs) c = (c \<notin> set cs)"

datatype atom = One cls | Opt cls | Many cls

fun matches :: "atom list \<Rightarrow> string \<Rightarrow> bool" where
  "matches [] s = (s = [])"
| "matches (One k # r) [] = False"
| "matches (One k # r) (c # cs) = (holds k c \<and> matches r cs)"
| "matches (Opt k # r) [] = matches r []"
| "matches (Opt k # r) (c # cs) = ((holds k c \<and> matches r cs) \<or> matches r (c # cs))"
| "matches (Many k # r) [] = matches r []"
| "matches (Many k # r) (c # cs) = ((holds k c \<and> matches (Many k # r) cs) \<or> matches r (c # cs))"

text \<open>The dot: any character but a line terminator.\<close>

definition dot :: cls where "dot = NotIn [nl, cr]"

text \<open>\<open>/^[ \t]*[!]\[.*\]\([^)]*\)[ \t\n]*$/\<close>\<close>

definition img_re :: "atom list" where
  "img_re = [Many (In [sp, tab]), One (In ''!''), One (In ''[''), Many dot, One (In '']''),
             One (In ''(''), Many (NotIn '')''), One (In '')''), Many (In [sp, tab, nl])]"

text \<open>\<open>/^[ \t]*<.*>[ \t\n]*$/\<close>\<close>

definition tag_re :: "atom list" where
  "tag_re = [Many (In [sp, tab]), One (In ''<''), Many dot, One (In ''>''), Many (In [sp, tab, nl])]"

definition isSplLine :: "line \<Rightarrow> bool" where
  "isSplLine l = (matches img_re l \<or> matches tag_re l)"

section \<open>Recognising a documentation line\<close>

text \<open>
  An unanchored search tries every start position from the left. \<open>search_end r s\<close> is
  \<open>/r$/\<close>: some suffix of \<open>s\<close> matches \<open>r\<close> as a whole.
\<close>

fun search_end :: "atom list \<Rightarrow> string \<Rightarrow> bool" where
  "search_end r [] = matches r []"
| "search_end r (c # cs) = (matches r (c # cs) \<or> search_end r cs)"

text \<open>\<open>lit_prefix ks s\<close>: \<open>s\<close> starts with one character of each class of \<open>ks\<close>; the rest.\<close>

fun lit_prefix :: "cls list \<Rightarrow> string \<Rightarrow> string option" where
  "lit_prefix [] s = Some s"
| "lit_prefix (k # ks) [] = None"
| "lit_prefix (k # ks) (c # cs) = (if holds k c then lit_prefix ks cs else None)"

text \<open>The leftmost position where the classes match; what follows them.\<close>

fun search_lit :: "cls list \<Rightarrow> string \<Rightarrow> string option" where
  "search_lit ks [] = lit_prefix ks []"
| "search_lit ks (c # cs) =
     (case lit_prefix ks (c # cs) of Some rest \<Rightarrow> Some rest | None \<Rightarrow> search_lit ks cs)"

text \<open>The marker \<open>[/#][/#]\*\*\<close>.\<close>

definition marker :: "cls list" where
  "marker = [In ''/#'', In ''/#'', In ''*'', In ''*'']"

text \<open>
  \<open>xtract_doc_comment_1\<close>: first \<open>/[/#][/#]\*\* ?$/\<close>, which gives the empty line; then
  \<open>/[/#][/#]\*\* (.*)/\<close>, whose group is the longest run without a line terminator after
  the leftmost marker and space; else \<open>null\<close>.
\<close>

definition xtract_doc_comment_1 :: "string \<Rightarrow> line option" where
  "xtract_doc_comment_1 l =
     (if search_end (map One marker @ [Opt (In [sp])]) l then Some []
      else (case search_lit (marker @ [In [sp]]) l of
              Some rest \<Rightarrow> Some (takeWhile (holds dot) rest)
            | None \<Rightarrow> None))"

section \<open>The diff entries and the writer\<close>

text \<open>
  A diff entry as the program reads it: the flags \<open>fresh\<close>, \<open>added\<close>, \<open>removed\<close> (a
  missing flag is falsy) and the text \<open>value\<close>.
\<close>

record part =
  fresh :: bool
  added :: bool
  removed :: bool
  pvalue :: string

definition fresh_part :: "line \<Rightarrow> part" where
  "fresh_part v = \<lparr>fresh = True, added = False, removed = False, pvalue = v @ [nl]\<rparr>"

definition asDiff :: "docblock list \<Rightarrow> part list" where
  "asDiff docblocks = foldl (\<lambda>diff block. diff @ map fresh_part block) [] docblocks"

text \<open>The kind \<open>saveReadme\<close> gives an entry, by its chain of tests.\<close>

datatype kind = Fresh | Removed | Added | Unchanged

definition classify :: "part \<Rightarrow> kind" where
  "classify p = (if fresh p then Fresh else if removed p then Removed
                 else if added p then Added else Unchanged)"

text \<open>One turn of the loop of \<open>saveReadme\<close> on the output array \<open>o\<close>.\<close>

definition save_step :: "part \<Rightarrow> string list \<Rightarrow> string list" where
  "save_step p out =
     (if fresh p then out @ [pvalue p]
      else if removed p then out
      else if added p then out @ [pvalue p]
      else out @ [pvalue p])"

text \<open>\<open>saveReadme\<close>: the text written to the README (the console report is left out).\<close>

definition saveReadme :: "part list \<Rightarrow> string" where
  "saveReadme diff = trim (join [] (fold save_step diff []))"

section \<open>The lockstep walk\<close>

definition maxLookAhead :: nat where "maxLookAhead = 7"

text \<open>
  The \<open>for\<close> loop of the mismatch branch, from offset \<open>i\<close> on: the offset it stops at and
  the distance and cursors it leaves.
\<close>

function look :: "line list \<Rightarrow> line list \<Rightarrow> line \<Rightarrow> line \<Rightarrow> nat \<Rightarrow> nat \<Rightarrow> nat \<Rightarrow> nat
                    \<Rightarrow> nat \<times> nat \<times> nat \<times> nat" where
  "look data rlines ld lr i dist nd nr =
     (if i < maxLookAhead then
        (if at rlines (nr + i) = Some ld then (i, dist + i, nd, nr + i)
         else if at data (nd + i) = Some lr then (i, dist + i, nd + i, nr)
         else look data rlines ld lr (i + 1) dist nd nr)
      else (i, dist, nd, nr))"
  by pat_completeness auto
termination
  by (relation "measure (\<lambda>(data, rlines, ld, lr, i, dist, nd, nr). maxLookAhead - i)") auto

text \<open>The whole mismatch branch up to the two increments: the new distance and cursors.\<close>

definition mismatch :: "line list \<Rightarrow> line list \<Rightarrow> nat \<Rightarrow> nat \<Rightarrow> nat \<Rightarrow> nat \<times> nat \<times> nat" where
  "mismatch data rlines nd nr dist =
     (case look data rlines (data ! nd) (rlines ! nr) 1 dist nd nr of
        (i, dist', nd', nr') \<Rightarrow>
          ((if i = maxLookAhead then dist' + 2 else dist'), nd' + 1, nr' + 1))"

definition exceeds :: "nat option \<Rightarrow> nat \<Rightarrow> bool" where
  "exceeds best dist = (case best of None \<Rightarrow> False | Some b \<Rightarrow> dist > b)"

text \<open>
  The \<open>while\<close> loop of \<open>find_min_1\<close> from the state \<open>(data, nd, nr, dist)\<close>, with
  \<open>best\<close> the value of \<open>min.dist\<close>. \<open>None\<close> is the early \<open>return\<close>; otherwise the
  distance and the merged lines the loop ends with.
\<close>

function walk :: "nat option \<Rightarrow> line list \<Rightarrow> line list \<Rightarrow> nat \<Rightarrow> nat \<Rightarrow> nat
                    \<Rightarrow> (nat \<times> line list) option" where
  "walk best rlines data nd nr dist =
     (if nd < length data \<and> nr < length rlines then
        (if data ! nd = rlines ! nr then walk best rlines data (nd + 1) (nr + 1) dist
         else if data ! nd = [] \<or> isSplLine (data ! nd) then walk best rlines data (nd + 1) nr dist
         else if rlines ! nr = [] \<or> isSplLine (rlines ! nr)
           then walk best rlines (splice_in data nd (rlines ! nr)) (nd + 1) (nr + 1) dist
         else (case mismatch data rlines nd nr dist of
                 (dist', nd', nr') \<Rightarrow>
                   if exceeds best dist' then None else walk best rlines data nd' nr' dist'))
      else Some (dist, data))"
  by pat_completeness auto
termination
proof -
  have mono: "nd \<le> fst (snd (snd (look data rlines ld lr i dist nd nr)))
              \<and> nr \<le> snd (snd (snd (look data rlines ld lr i dist nd nr)))"
    for data rlines ld lr i dist nd nr
    by (induction data rlines ld lr i dist nd nr rule: look.induct)
       (subst look.simps, subst (2) look.simps, simp)
  show ?thesis
  proof (relation "measure (\<lambda>(best, rlines, data, nd, nr, dist).
                      (length data - nd) + (length rlines - nr))", goal_cases)
    case 1
    show ?case by simp
  next
    case 2
    then show ?case by simp arith
  next
    case 3
    then show ?case by simp arith
  next
    case 4
    then show ?case by (simp add: splice_in_def) arith
  next
    case (5 best rlines data nd nr dist dist' rest nd' nr')
    have "nd \<le> nd'" "nr < nr'"
      using 5 mono [of nd data rlines "data ! nd" "rlines ! nr" 1 dist nr]
      by (auto simp: mismatch_def split: prod.splits)
    then show ?case using 5 by simp arith
  qed
qed

section \<open>The search over the orderings\<close>

text \<open>The variables \<open>min\<close> and \<open>dists\<close> that the candidates share.\<close>

record search =
  min_dist :: "nat option"
  min_data :: "line list option"
  dists :: "nat list"

definition search_init :: search where
  "search_init = \<lparr>min_dist = None, min_data = None, dists = []\<rparr>"

text \<open>
  \<open>find_min_1\<close> on the current \<open>perm\<close>: flatten it, walk it against the README, and
  unless the walk returned early, record its distance and merged lines as the minimum.
\<close>

definition find_min_1 :: "line list \<Rightarrow> docblock list \<Rightarrow> search \<Rightarrow> search" where
  "find_min_1 rlines perm st =
     (case walk (min_dist st) rlines (concat perm) 0 0 0 of
        None \<Rightarrow> st
      | Some (dist, data) \<Rightarrow>
          \<lparr>min_dist = Some dist, min_data = Some data, dists = dists st @ [dist]\<rparr>)"

text \<open>
  \<open>gen_1\<close> with \<open>find_min_1\<close> as its callback. \<open>chosen\<close> and \<open>perm\<close> are passed down
  instead of being pushed and popped around the recursive call; an index never
  written reads as falsy.
\<close>

function gen_1 :: "docblock list \<Rightarrow> line list \<Rightarrow> (nat \<Rightarrow> bool) \<Rightarrow> docblock list
                     \<Rightarrow> search \<Rightarrow> search" where
  "gen_1 docblocks rlines chosen perm st =
     (if length perm = length docblocks then find_min_1 rlines perm st
      else fold (\<lambda>i st'. if chosen i then st'
                          else gen_1 docblocks rlines (chosen(i := True))
                                 (perm @ [docblocks ! i]) st')
             [0..<length docblocks] st)"
  by pat_completeness auto
termination
proof (relation "measure (\<lambda>(docblocks, rlines, chosen, perm, st).
                   card {i. i < length docblocks \<and> \<not> chosen i})", goal_cases)
  case 1
  show ?case by simp
next
  case (2 docblocks rlines chosen perm st i st')
  have "{j. j < length docblocks \<and> \<not> (chosen(i := True)) j}
          \<subset> {j. j < length docblocks \<and> \<not> chosen j}"
    using 2 by auto
  then have "card {j. j < length docblocks \<and> \<not> (chosen(i := True)) j}
               < card {j. j < length docblocks \<and> \<not> chosen j}"
    by (intro psubset_card_mono) simp_all
  then show ?case by simp
qed

section \<open>The program\<close>

text \<open>
  What a run leaves: the text written to the README, nothing written, or the
  \<open>TypeError\<close> of calling \<open>join\<close> on \<open>null\<close>.
\<close>

datatype outcome = Written string | Nothing_written | Type_error

text \<open>
  \<open>Diff.diffLines\<close> belongs to the package \<open>diff\<close>, not to the program: \<open>regen_readme\<close>
  takes it as the parameter \<open>diffLines\<close>.
\<close>

definition regen_readme :: "(string \<Rightarrow> string \<Rightarrow> part list) \<Rightarrow> string \<Rightarrow> docblock list \<Rightarrow> outcome" where
  "regen_readme diffLines readme docblocks =
     (case min_data (gen_1 docblocks (split_lines readme) (\<lambda>i. False) [] search_init) of
        None \<Rightarrow> Type_error
      | Some data \<Rightarrow> Written (saveReadme (diffLines readme (trim (join [nl] data)))))"

text \<open>\<open>readsafely\<close>: the trimmed content of the file, \<open>null\<close> when there is no file.\<close>

definition readsafely :: "string option \<Rightarrow> string option" where
  "readsafely file = map_option trim file"

text \<open>
  \<open>main\<close> without \<open>--help\<close>, \<open>--version\<close> and \<open>--ignore-src\<close>: \<open>file\<close> is the content of
  the README file if it exists, \<open>docblocks\<close> the blocks \<open>xtractUserDocz\<close> collected (it
  returns \<open>undefined\<close> when there is none).
\<close>

definition main :: "(string \<Rightarrow> string \<Rightarrow> part list) \<Rightarrow> string option \<Rightarrow> docblock list \<Rightarrow> outcome" where
  "main diffLines file docblocks =
     (if docblocks = [] then Nothing_written
      else (case readsafely file of
              None \<Rightarrow> Written (saveReadme (asDiff docblocks))
            | Some readme \<Rightarrow> regen_readme diffLines readme docblocks))"

text \<open>
  What the program relies on from \<open>diffLines\<close>: its entries carry no \<open>fresh\<close> flag, the
  entries that are not \<open>removed\<close> spell the new text, and two equal texts give no
  \<open>added\<close> or \<open>removed\<close> entry.
\<close>

definition diff_contract :: "(string \<Rightarrow> string \<Rightarrow> part list) \<Rightarrow> bool" where
  "diff_contract diffLines =
     (\<forall>old new. (\<forall>p \<in> set (diffLines old new). \<not> fresh p)
        \<and> concat (map pvalue (filter (\<lambda>p. \<not> removed p) (diffLines old new))) = new
        \<and> (\<forall>p \<in> set (diffLines old old). \<not> added p \<and> \<not> removed p))"

text \<open>
  The coarsest function that meets the contract: equal texts are one unchanged entry,
  different texts are the old one removed and the new one added. It stands for
  \<open>diffLines\<close> where a property is evaluated on a concrete input; what is written
  does not depend on the choice, it is the trimmed new text for every function that
  meets the contract.
\<close>

definition whole_diff :: "string \<Rightarrow> string \<Rightarrow> part list" where
  "whole_diff old new =
     (if old = new then [\<lparr>fresh = False, added = False, removed = False, pvalue = new\<rparr>]
      else (if old = [] then [] else [\<lparr>fresh = False, added = False, removed = True, pvalue = old\<rparr>])
         @ (if new = [] then [] else [\<lparr>fresh = False, added = True, removed = False, pvalue = new\<rparr>]))"

section \<open>Notions the properties are stated with\<close>

text \<open>The complete orderings in the order \<open>gen_1\<close> hands them to its callback.\<close>

function visited :: "docblock list \<Rightarrow> (nat \<Rightarrow> bool) \<Rightarrow> docblock list \<Rightarrow> docblock list list" where
  "visited docblocks chosen perm =
     (if length perm = length docblocks then [perm]
      else concat (map (\<lambda>i. if chosen i then []
                              else visited docblocks (chosen(i := True)) (perm @ [docblocks ! i]))
                    [0..<length docblocks]))"
  by pat_completeness auto
termination
proof (relation "measure (\<lambda>(docblocks, chosen, perm).
                   card {i. i < length docblocks \<and> \<not> chosen i})", goal_cases)
  case 1
  show ?case by simp
next
  case (2 docblocks chosen perm i)
  have "{j. j < length docblocks \<and> \<not> (chosen(i := True)) j}
          \<subset> {j. j < length docblocks \<and> \<not> chosen j}"
    using 2 by auto
  then have "card {j. j < length docblocks \<and> \<not> (chosen(i := True)) j}
               < card {j. j < length docblocks \<and> \<not> chosen j}"
    by (intro psubset_card_mono) simp_all
  then show ?case by simp
qed

definition orderings :: "docblock list \<Rightarrow> docblock list list" where
  "orderings docblocks = visited docblocks (\<lambda>i. False) []"

text \<open>The indices \<open>gen_1\<close> may still choose.\<close>

definition unchosen :: "docblock list \<Rightarrow> (nat \<Rightarrow> bool) \<Rightarrow> nat set" where
  "unchosen docblocks chosen = {i. i < length docblocks \<and> \<not> chosen i}"

text \<open>An ordering of the blocks: the blocks taken along a permutation of their indices.\<close>

definition is_ordering :: "docblock list \<Rightarrow> docblock list \<Rightarrow> bool" where
  "is_ordering docblocks P =
     (\<exists>js. distinct js \<and> set js = {..<length docblocks} \<and> P = map (nth docblocks) js)"

text \<open>The search of \<open>regen_readme\<close> from its initial state.\<close>

definition search_all :: "docblock list \<Rightarrow> line list \<Rightarrow> search" where
  "search_all docblocks rlines = gen_1 docblocks rlines (\<lambda>i. False) [] search_init"

text \<open>
  The true distance and merged lines of an ordering: its walk when no minimum is known
  yet, so that nothing cuts it short.
\<close>

definition score :: "line list \<Rightarrow> docblock list \<Rightarrow> nat \<times> line list" where
  "score rlines P = (case walk None rlines (concat P) 0 0 0 of
                       Some r \<Rightarrow> r | None \<Rightarrow> (0, concat P))"

definition dist_of :: "line list \<Rightarrow> docblock list \<Rightarrow> nat" where
  "dist_of rlines P = fst (score rlines P)"

definition merged_of :: "line list \<Rightarrow> docblock list \<Rightarrow> line list" where
  "merged_of rlines P = snd (score rlines P)"

text \<open>
  In the mismatch branch at cursors \<open>nd\<close>, \<open>nr\<close>: at offset \<open>i\<close> the current line of
  \<open>data\<close> reappears in \<open>rlines\<close>, or the current line of \<open>rlines\<close> reappears in \<open>data\<close>.
\<close>

definition ref_hit :: "line list \<Rightarrow> line list \<Rightarrow> nat \<Rightarrow> nat \<Rightarrow> nat \<Rightarrow> bool" where
  "ref_hit data rlines nd nr i = (at rlines (nr + i) = Some (data ! nd))"

definition data_hit :: "line list \<Rightarrow> line list \<Rightarrow> nat \<Rightarrow> nat \<Rightarrow> nat \<Rightarrow> bool" where
  "data_hit data rlines nd nr i = (at data (nd + i) = Some (rlines ! nr))"

text \<open>
  The two shapes of a structural line in the words of the specification: after
  stripping the white space around it, the line is one image reference
  \<open>![alt](target)\<close>, or one tag, \<open><\<close> and \<open>>\<close> around text that holds neither.
\<close>

definition spec_image_line :: "line \<Rightarrow> bool" where
  "spec_image_line l =
     (case trim l of
        c1 # c2 # rest \<Rightarrow>
          c1 = CHR ''!'' \<and> c2 = CHR ''['' \<and>
          (case dropWhile (\<lambda>c. c \<noteq> CHR '']'') rest of
             d1 # d2 # rest' \<Rightarrow> d2 = CHR ''('' \<and> dropWhile (\<lambda>c. c \<noteq> CHR '')'') rest' = '')''
           | _ \<Rightarrow> False)
      | _ \<Rightarrow> False)"

definition spec_tag_line :: "line \<Rightarrow> bool" where
  "spec_tag_line l =
     (case trim l of
        c # rest \<Rightarrow> c = CHR ''<'' \<and> dropWhile (\<lambda>c. c \<noteq> CHR ''<'' \<and> c \<noteq> CHR ''>'') rest = ''>''
      | [] \<Rightarrow> False)"

definition is_cmt :: "char \<Rightarrow> bool" where
  "is_cmt c = (c = CHR ''/'' \<or> c = CHR ''#'')"

text \<open>
  A marker, two characters out of \<open>/\<close> and \<open>#\<close> and then \<open>**\<close>, ends the line, alone or
  with one space after it.
\<close>

definition ends_with_marker :: "string \<Rightarrow> bool" where
  "ends_with_marker l =
     (\<exists>pre c1 c2. is_cmt c1 \<and> is_cmt c2
        \<and> (l = pre @ [c1, c2] @ ''**'' \<or> l = pre @ [c1, c2] @ ''** ''))"

text \<open>A marker and a space start at position \<open>n\<close> of the line.\<close>

definition marker_space_at :: "string \<Rightarrow> nat \<Rightarrow> bool" where
  "marker_space_at l n =
     (\<exists>c1 c2 rest. is_cmt c1 \<and> is_cmt c2 \<and> drop n l = [c1, c2] @ ''** '' @ rest)"

declare look.simps [simp del] walk.simps [simp del] gen_1.simps [simp del] visited.simps [simp del]

section \<open>Lemmas on the string primitives and the writer\<close>

lemma join_nil_concat: "join [] xs = concat xs"
  by (induction "[]::string" xs rule: join.induct) simp_all

lemma fold_save_step:
  "fold save_step diff out = out @ map pvalue (filter (\<lambda>p. classify p \<noteq> Removed) diff)"
  by (induction diff arbitrary: out) (auto simp: save_step_def classify_def)

lemma foldl_asDiff:
  "foldl (\<lambda>diff block. diff @ map fresh_part block) acc docblocks
     = acc @ map fresh_part (concat docblocks)"
  by (induction docblocks arbitrary: acc) simp_all

lemma asDiff_flat: "asDiff docblocks = map fresh_part (concat docblocks)"
  by (simp add: asDiff_def foldl_asDiff)

lemma classify_fresh_part: "classify (fresh_part v) = Fresh"
  by (simp add: classify_def fresh_part_def)

lemma pvalue_fresh_part: "pvalue (fresh_part v) = v @ [nl]"
  by (simp add: fresh_part_def)

lemma saveReadme_closed:
  "saveReadme diff = trim (concat (map pvalue (filter (\<lambda>p. classify p \<noteq> Removed) diff)))"
  by (simp add: saveReadme_def fold_save_step join_nil_concat)

lemma saveReadme_asDiff:
  "saveReadme (asDiff docblocks) = trim (concat (map (\<lambda>l. l @ [nl]) (concat docblocks)))"
  by (simp add: saveReadme_closed asDiff_flat filter_map o_def classify_fresh_part pvalue_fresh_part)

lemma js_space_nl: "js_space nl"
  by (simp add: js_space_def nl_def)

lemma trim_snoc_space:
  assumes "js_space c"
  shows "trim (s @ [c]) = trim s"
proof (cases "\<forall>x \<in> set s. js_space x")
  case True
  then have "dropWhile js_space (s @ [c]) = []" "dropWhile js_space s = []"
    using assms unfolding dropWhile_eq_Nil_conv by auto
  then show ?thesis by (simp only: trim_def)
next
  case False
  then obtain x where "x \<in> set s" "\<not> js_space x" by blast
  then have "dropWhile js_space (s @ [c]) = dropWhile js_space s @ [c]"
    by (rule dropWhile_append1)
  then show ?thesis using assms by (simp add: trim_def)
qed

lemma trim_ends: "trim s = [] \<or> (\<not> js_space (hd (trim s)) \<and> \<not> js_space (last (trim s)))"
proof (cases "trim s = []")
  case False
  let ?t = "dropWhile js_space s"
  let ?d = "dropWhile js_space (rev ?t)"
  from False have d: "?d \<noteq> []" by (simp add: trim_def)
  then have t: "?t \<noteq> []" by (metis dropWhile.simps(1) rev.simps(1))
  have l: "\<not> js_space (hd ?d)" using d by (rule hd_dropWhile)
  have "?t = rev ?d @ rev (takeWhile js_space (rev ?t))"
    by (metis rev_append rev_rev_ident takeWhile_dropWhile_id)
  then have "hd ?t = hd (rev ?d)" using d by (metis hd_append2 rev_is_Nil_conv)
  moreover have "\<not> js_space (hd ?t)" using t by (rule hd_dropWhile)
  ultimately have "\<not> js_space (hd (trim s))" by (simp add: trim_def)
  moreover have "\<not> js_space (last (trim s))" using l d by (simp add: trim_def last_rev)
  ultimately show ?thesis by simp
qed simp

lemma trim_fixed: "u = [] \<or> (\<not> js_space (hd u) \<and> \<not> js_space (last u)) \<Longrightarrow> trim u = u"
proof (cases u)
  case (Cons a v)
  assume "u = [] \<or> (\<not> js_space (hd u) \<and> \<not> js_space (last u))"
  with Cons have h: "\<not> js_space a" and l: "\<not> js_space (last u)" by auto
  from h Cons have 1: "dropWhile js_space u = u" by simp
  have "hd (rev u) = last u" using Cons by (simp only: hd_rev)
  with l have "\<not> js_space (hd (rev u))" by simp
  then have "dropWhile js_space (rev u) = rev u" using Cons by (cases "rev u") auto
  with 1 show ?thesis by (simp add: trim_def)
qed (simp add: trim_def)

lemma trim_idem: "trim (trim s) = trim s"
  by (rule trim_fixed) (rule trim_ends)

lemma join_nl_terminated:
  "xs \<noteq> [] \<Longrightarrow> concat (map (\<lambda>l. l @ [nl]) xs) = join [nl] xs @ [nl]"
  by (induction "[nl]" xs rule: join.induct) simp_all

lemma trim_terminated: "trim (concat (map (\<lambda>l. l @ [nl]) xs)) = trim (join [nl] xs)"
proof (cases xs)
  case Nil
  then show ?thesis by simp
next
  case (Cons a list)
  then have "concat (map (\<lambda>l. l @ [nl]) xs) = join [nl] xs @ [nl]"
    by (intro join_nl_terminated) simp
  then show ?thesis by (simp only: trim_snoc_space [OF js_space_nl])
qed

lemma split_lines_nonempty: "split_lines s \<noteq> []"
  by (induction s) (auto split: list.splits)

lemma join_split_lines: "cr \<notin> set s \<Longrightarrow> join [nl] (split_lines s) = s"
proof (induction s)
  case Nil
  then show ?case by simp
next
  case (Cons c cs)
  obtain x xs where x: "split_lines cs = x # xs" using split_lines_nonempty [of cs] by (cases "split_lines cs") auto
  with Cons show ?case by (cases xs) (auto)
qed

section \<open>Lemmas on the walk\<close>

lemma look_none:
  assumes "k \<le> maxLookAhead"
    and "\<forall>j. k \<le> j \<and> j < maxLookAhead \<longrightarrow> at rlines (nr + j) \<noteq> Some ld \<and> at data (nd + j) \<noteq> Some lr"
  shows "look data rlines ld lr k dist nd nr = (maxLookAhead, dist, nd, nr)"
  using assms
proof (induction "maxLookAhead - k" arbitrary: k)
  case 0
  then show ?case by (subst look.simps) simp
next
  case (Suc n)
  then have "look data rlines ld lr (k + 1) dist nd nr = (maxLookAhead, dist, nd, nr)"
    by (intro Suc.hyps) auto
  moreover have "k < maxLookAhead" using Suc by simp
  ultimately show ?case using Suc.prems by (subst look.simps) simp
qed

lemma look_first:
  assumes "k \<le> i" and "i < maxLookAhead"
    and "at rlines (nr + i) = Some ld \<or> at data (nd + i) = Some lr"
    and "\<forall>j. k \<le> j \<and> j < i \<longrightarrow> at rlines (nr + j) \<noteq> Some ld \<and> at data (nd + j) \<noteq> Some lr"
  shows "look data rlines ld lr k dist nd nr =
           (if at rlines (nr + i) = Some ld then (i, dist + i, nd, nr + i)
            else (i, dist + i, nd + i, nr))"
  using assms
proof (induction "i - k" arbitrary: k)
  case 0
  then have "k = i" by simp
  then show ?case using 0 by (subst look.simps) auto
next
  case (Suc n)
  then have "look data rlines ld lr (k + 1) dist nd nr =
           (if at rlines (nr + i) = Some ld then (i, dist + i, nd, nr + i)
            else (i, dist + i, nd + i, nr))"
    by (intro Suc.hyps) auto
  moreover have "k < maxLookAhead" "k < i" using Suc by simp_all
  ultimately show ?case using Suc.prems by (subst look.simps) simp
qed

lemma look_dist_mono: "dist \<le> fst (snd (look data rlines ld lr i dist nd nr))"
  by (induction data rlines ld lr i dist nd nr rule: look.induct)
     (subst look.simps, simp)

lemma mismatch_dist_mono: "mismatch data rlines nd nr dist = (d', nd', nr') \<Longrightarrow> dist \<le> d'"
  using look_dist_mono [of dist data rlines "data ! nd" "rlines ! nr" 1 nd nr]
  by (auto simp: mismatch_def split: prod.splits if_splits)


lemma walk_done:
  "\<not> (nd < length data \<and> nr < length rlines) \<Longrightarrow> walk best rlines data nd nr dist = Some (dist, data)"
  by (subst walk.simps) auto

lemma walk_match:
  "nd < length data \<Longrightarrow> nr < length rlines \<Longrightarrow> data ! nd = rlines ! nr \<Longrightarrow>
   walk best rlines data nd nr dist = walk best rlines data (nd + 1) (nr + 1) dist"
  by (subst walk.simps) simp

lemma walk_skip:
  "nd < length data \<Longrightarrow> nr < length rlines \<Longrightarrow> data ! nd \<noteq> rlines ! nr \<Longrightarrow>
   data ! nd = [] \<or> isSplLine (data ! nd) \<Longrightarrow>
   walk best rlines data nd nr dist = walk best rlines data (nd + 1) nr dist"
  by (subst walk.simps) simp

lemma walk_insert:
  "nd < length data \<Longrightarrow> nr < length rlines \<Longrightarrow> data ! nd \<noteq> rlines ! nr \<Longrightarrow>
   \<not> (data ! nd = [] \<or> isSplLine (data ! nd)) \<Longrightarrow>
   rlines ! nr = [] \<or> isSplLine (rlines ! nr) \<Longrightarrow>
   walk best rlines data nd nr dist
     = walk best rlines (splice_in data nd (rlines ! nr)) (nd + 1) (nr + 1) dist"
  by (subst walk.simps) simp

lemma walk_mismatch:
  "nd < length data \<Longrightarrow> nr < length rlines \<Longrightarrow> data ! nd \<noteq> rlines ! nr \<Longrightarrow>
   \<not> (data ! nd = [] \<or> isSplLine (data ! nd)) \<Longrightarrow>
   \<not> (rlines ! nr = [] \<or> isSplLine (rlines ! nr)) \<Longrightarrow>
   mismatch data rlines nd nr dist = (d', nd', nr') \<Longrightarrow>
   walk best rlines data nd nr dist
     = (if exceeds best d' then None else walk best rlines data nd' nr' d')"
  by (subst walk.simps) simp

lemma walk_branches:
  obtains (fin) "\<not> (nd < length data \<and> nr < length rlines)"
  | (match) "nd < length data" "nr < length rlines" "data ! nd = rlines ! nr"
  | (skip) "nd < length data" "nr < length rlines" "data ! nd \<noteq> rlines ! nr"
      "data ! nd = [] \<or> isSplLine (data ! nd)"
  | (ins) "nd < length data" "nr < length rlines" "data ! nd \<noteq> rlines ! nr"
      "\<not> (data ! nd = [] \<or> isSplLine (data ! nd))"
      "rlines ! nr = [] \<or> isSplLine (rlines ! nr)"
  | (mis) d' nd' nr' where "nd < length data" "nr < length rlines" "data ! nd \<noteq> rlines ! nr"
      "\<not> (data ! nd = [] \<or> isSplLine (data ! nd))"
      "\<not> (rlines ! nr = [] \<or> isSplLine (rlines ! nr))"
      "mismatch data rlines nd nr dist = (d', nd', nr')"
proof (cases "mismatch data rlines nd nr dist")
  case (fields d' nd' nr')
  show ?thesis
  proof (cases "nd < length data \<and> nr < length rlines")
    case False
    then show ?thesis by (rule fin)
  next
    case True
    then have r: "nd < length data" "nr < length rlines" by simp_all
    show ?thesis
    proof (cases "data ! nd = rlines ! nr")
      case True
      with r show ?thesis by (rule match)
    next
      case ne: False
      show ?thesis
      proof (cases "data ! nd = [] \<or> isSplLine (data ! nd)")
        case True
        with r ne show ?thesis by (rule skip)
      next
        case nd: False
        show ?thesis
        proof (cases "rlines ! nr = [] \<or> isSplLine (rlines ! nr)")
          case True
          with r ne nd show ?thesis by (rule ins)
        next
          case False
          with r ne nd show ?thesis using fields by (rule mis)
        qed
      qed
    qed
  qed
qed

lemma walk_total: "\<exists>r. walk None rlines data nd nr dist = Some r"
proof (induction "None :: nat option" rlines data nd nr dist rule: walk.induct)
  case (1 rlines data nd nr dist)
  show ?case
  proof (cases rule: walk_branches [where nd = nd and data = data and nr = nr and rlines = rlines and dist = dist])
    case fin
    then show ?thesis by (simp add: walk_done [OF fin])
  next
    case match
    then show ?thesis using "1.hyps"(1) by (simp add: walk_match [OF match])
  next
    case skip
    then show ?thesis using "1.hyps"(2) by (simp add: walk_skip [OF skip])
  next
    case ins
    then show ?thesis using "1.hyps"(3) by (simp add: walk_insert [OF ins])
  next
    case (mis d' nd' nr')
    then show ?thesis using "1.hyps"(4) [of d' "(nd', nr')" nd' nr']
      by (simp add: walk_mismatch [OF mis] exceeds_def)
  qed
qed

lemma walk_mono: "walk best rlines data nd nr dist = Some (d, m) \<Longrightarrow> dist \<le> d"
proof (induction best rlines data nd nr dist rule: walk.induct)
  case (1 best rlines data nd nr dist)
  show ?case
  proof (cases rule: walk_branches [where nd = nd and data = data and nr = nr and rlines = rlines and dist = dist])
    case fin
    then show ?thesis using "1.prems" by (simp add: walk_done [OF fin])
  next
    case match
    then show ?thesis using "1.IH"(1) "1.prems" by (simp add: walk_match [OF match])
  next
    case skip
    then show ?thesis using "1.IH"(2) "1.prems" by (simp add: walk_skip [OF skip])
  next
    case ins
    then show ?thesis using "1.IH"(3) "1.prems" by (simp add: walk_insert [OF ins])
  next
    case (mis d' nd' nr')
    have "dist \<le> d'" using mis(6) by (rule mismatch_dist_mono)
    moreover have "d' \<le> d" using mis "1.IH"(4) [of d' "(nd', nr')" nd' nr'] "1.prems"
      by (simp add: walk_mismatch [OF mis] split: if_splits)
    ultimately show ?thesis by simp
  qed
qed

lemma subseq_splice_in: "subseq xs (splice_in xs i x)"
proof -
  have a: "subseq (drop i xs) (x # drop i xs)"
    by (rule list_emb_Cons) (rule subseq_order.refl)
  have "subseq (take i xs @ drop i xs) (take i xs @ x # drop i xs)"
    using subseq_order.refl a by (rule list_emb_append_mono)
  then show ?thesis by (simp add: splice_in_def)
qed

lemma walk_subseq: "walk best rlines data nd nr dist = Some (d, m) \<Longrightarrow> subseq data m"
proof (induction best rlines data nd nr dist rule: walk.induct)
  case (1 best rlines data nd nr dist)
  show ?case
  proof (cases rule: walk_branches [where nd = nd and data = data and nr = nr and rlines = rlines and dist = dist])
    case fin
    have "m = data" using "1.prems" walk_done [OF fin, of best dist] by simp
    then show ?thesis by simp
  next
    case match
    have "walk best rlines data (nd + 1) (nr + 1) dist = Some (d, m)"
      using "1.prems" walk_match [OF match, of best dist] by simp
    with match show ?thesis by (intro "1.IH"(1)) simp_all
  next
    case skip
    have "walk best rlines data (nd + 1) nr dist = Some (d, m)"
      using "1.prems" walk_skip [OF skip, of best dist] by simp
    with skip show ?thesis by (intro "1.IH"(2)) simp_all
  next
    case ins
    have "walk best rlines (splice_in data nd (rlines ! nr)) (nd + 1) (nr + 1) dist = Some (d, m)"
      using "1.prems" walk_insert [OF ins, of best dist] by simp
    with ins have "subseq (splice_in data nd (rlines ! nr)) m"
      by (intro "1.IH"(3)) simp_all
    with subseq_splice_in show ?thesis by (rule subseq_order.trans)
  next
    case (mis d' nd' nr')
    have e: "\<not> exceeds best d'" and w: "walk best rlines data nd' nr' d' = Some (d, m)"
      using "1.prems" walk_mismatch [OF mis, of best] by (simp_all split: if_splits)
    show ?thesis
      using mis e w by (intro "1.IH"(4) [of d' "(nd', nr')" nd' nr']) simp_all
  qed
qed

lemma walk_bound:
  "dist \<le> b \<Longrightarrow> walk (Some b) rlines data nd nr dist =
     (case walk None rlines data nd nr dist of
        None \<Rightarrow> None
      | Some (d, m) \<Rightarrow> if d \<le> b then Some (d, m) else None)"
proof (induction "None :: nat option" rlines data nd nr dist rule: walk.induct)
  case (1 rlines data nd nr dist)
  show ?case
  proof (cases rule: walk_branches [where nd = nd and data = data and nr = nr and rlines = rlines and dist = dist])
    case fin
    then show ?thesis using "1.prems" by (simp add: walk_done [OF fin])
  next
    case match
    then show ?thesis using "1.hyps"(1) "1.prems" by (simp add: walk_match [OF match])
  next
    case skip
    then show ?thesis using "1.hyps"(2) "1.prems" by (simp add: walk_skip [OF skip])
  next
    case ins
    then show ?thesis using "1.hyps"(3) "1.prems" by (simp add: walk_insert [OF ins])
  next
    case (mis d' nd' nr')
    show ?thesis
    proof (cases "d' \<le> b")
      case True
      then show ?thesis using mis "1.hyps"(4) [of d' "(nd', nr')" nd' nr']
        by (simp add: walk_mismatch [OF mis] exceeds_def)
    next
      case False
      obtain d m where r: "walk None rlines data nd' nr' d' = Some (d, m)"
        using walk_total [of rlines data nd' nr' d'] by auto
      then have "d' \<le> d" by (rule walk_mono)
      with False r mis show ?thesis by (simp add: walk_mismatch [OF mis] exceeds_def)
    qed
  qed
qed

lemma walk_same: "nd \<le> length rlines \<Longrightarrow> walk best rlines rlines nd nd dist = Some (dist, rlines)"
proof (induction "length rlines - nd" arbitrary: nd)
  case 0
  then have "\<not> (nd < length rlines \<and> nd < length rlines)" by simp
  then show ?case by (rule walk_done)
next
  case (Suc n)
  then have "walk best rlines rlines (nd + 1) (nd + 1) dist = Some (dist, rlines)"
    by (intro Suc.hyps) auto
  moreover have "nd < length rlines" using Suc.hyps(2) by simp
  ultimately show ?case by (simp add: walk_match [of nd rlines nd rlines])
qed

section \<open>Lemmas on the generation of the orderings\<close>

lemma fold_concat_map:
  "fold f (concat (map g xs)) s = fold (\<lambda>x. fold f (g x)) xs s"
  by (induction xs arbitrary: s) simp_all

lemma gen_1_visited:
  "gen_1 docblocks rlines chosen perm st
     = fold (find_min_1 rlines) (visited docblocks chosen perm) st"
proof (induction docblocks rlines chosen perm st rule: gen_1.induct)
  case (1 docblocks rlines chosen perm st)
  show ?case
  proof (cases "length perm = length docblocks")
    case True
    then show ?thesis by (subst gen_1.simps, subst visited.simps) simp
  next
    case False
    let ?g = "\<lambda>i. if chosen i then []
                  else visited docblocks (chosen(i := True)) (perm @ [docblocks ! i])"
    have step: "(\<lambda>st'. if chosen i then st'
                  else gen_1 docblocks rlines (chosen(i := True)) (perm @ [docblocks ! i]) st')
                = fold (find_min_1 rlines) (?g i)"
      if "i \<in> set [0..<length docblocks]" for i
    proof (rule ext)
      fix st'
      show "(if chosen i then st'
              else gen_1 docblocks rlines (chosen(i := True)) (perm @ [docblocks ! i]) st')
            = fold (find_min_1 rlines) (?g i) st'"
        using "1.IH" [OF False that] by (cases "chosen i") (simp_all add: fun_upd_def)
    qed
    have "gen_1 docblocks rlines chosen perm st
            = fold (\<lambda>i st'. if chosen i then st'
                  else gen_1 docblocks rlines (chosen(i := True)) (perm @ [docblocks ! i]) st')
                [0..<length docblocks] st"
      using False by (subst gen_1.simps) simp
    also have "\<dots> = fold (\<lambda>i. fold (find_min_1 rlines) (?g i)) [0..<length docblocks] st"
      by (rule fold_cong) (simp_all add: step)
    also have "\<dots> = fold (find_min_1 rlines) (concat (map ?g [0..<length docblocks])) st"
      by (simp only: fold_concat_map)
    also have "\<dots> = fold (find_min_1 rlines) (visited docblocks chosen perm) st"
      using False by (subst (2) visited.simps) simp
    finally show ?thesis .
  qed
qed

lemma search_all_fold:
  "search_all docblocks rlines = fold (find_min_1 rlines) (orderings docblocks) search_init"
  by (simp add: search_all_def orderings_def gen_1_visited)


lemma finite_unchosen: "finite (unchosen docblocks chosen)"
  by (simp add: unchosen_def)

lemma unchosen_upd:
  "i \<in> unchosen docblocks chosen \<Longrightarrow>
   unchosen docblocks (chosen(i := True)) = unchosen docblocks chosen - {i}"
  by (auto simp: unchosen_def)

lemma visited_sound:
  "length perm + card (unchosen docblocks chosen) = length docblocks \<Longrightarrow>
   P \<in> set (visited docblocks chosen perm) \<Longrightarrow>
   \<exists>js. distinct js \<and> set js = unchosen docblocks chosen \<and> P = perm @ map (nth docblocks) js"
proof (induction docblocks chosen perm arbitrary: P rule: visited.induct)
  case (1 docblocks chosen perm)
  show ?case
  proof (cases "length perm = length docblocks")
    case True
    then have "unchosen docblocks chosen = {}" using "1.prems"(1) finite_unchosen by simp
    moreover have "P = perm" using True "1.prems"(2) by (subst (asm) visited.simps) simp
    ultimately show ?thesis by simp
  next
    case False
    then obtain i where i: "i < length docblocks" "\<not> chosen i"
      and P: "P \<in> set (visited docblocks (chosen(i := True)) (perm @ [docblocks ! i]))"
      using "1.prems"(2) by (subst (asm) visited.simps) (auto split: if_splits)
    have iu: "i \<in> unchosen docblocks chosen" using i by (simp add: unchosen_def)
    then have c: "card (unchosen docblocks (chosen(i := True))) = card (unchosen docblocks chosen) - 1"
      and pos: "0 < card (unchosen docblocks chosen)"
      using finite_unchosen [of docblocks chosen]
      by (auto simp: unchosen_upd card_gt_0_iff)
    have "length (perm @ [docblocks ! i]) + card (unchosen docblocks (chosen(i := True)))
            = length docblocks"
      using c pos "1.prems"(1) by simp
    with i have "\<exists>js. distinct js \<and> set js = unchosen docblocks (chosen(i := True))
                   \<and> P = (perm @ [docblocks ! i]) @ map (nth docblocks) js"
      using P by (intro "1.IH" [OF False _ i(2)]) (simp_all add: fun_upd_def)
    then obtain js where js: "distinct js" "set js = unchosen docblocks (chosen(i := True))"
      "P = (perm @ [docblocks ! i]) @ map (nth docblocks) js"
      by blast
    have "distinct (i # js)" "set (i # js) = unchosen docblocks chosen"
      "P = perm @ map (nth docblocks) (i # js)"
      using js iu by (auto simp: unchosen_upd)
    then show ?thesis by blast
  qed
qed

lemma visited_complete:
  "length perm + card (unchosen docblocks chosen) = length docblocks \<Longrightarrow>
   distinct js \<Longrightarrow> set js = unchosen docblocks chosen \<Longrightarrow>
   perm @ map (nth docblocks) js \<in> set (visited docblocks chosen perm)"
proof (induction docblocks chosen perm arbitrary: js rule: visited.induct)
  case (1 docblocks chosen perm)
  show ?case
  proof (cases "length perm = length docblocks")
    case True
    then have "unchosen docblocks chosen = {}" using "1.prems"(1) finite_unchosen by simp
    then have "js = []" using "1.prems"(3) by simp
    then show ?thesis using True by (subst visited.simps) simp
  next
    case False
    then have "unchosen docblocks chosen \<noteq> {}" using "1.prems"(1) by auto
    then obtain i js' where js: "js = i # js'" using "1.prems"(3) by (cases js) auto
    have iu: "i \<in> unchosen docblocks chosen" using js "1.prems"(3) by auto
    then have i: "i < length docblocks" "\<not> chosen i" by (simp_all add: unchosen_def)
    have c: "card (unchosen docblocks (chosen(i := True))) = card (unchosen docblocks chosen) - 1"
      and pos: "0 < card (unchosen docblocks chosen)"
      using iu finite_unchosen [of docblocks chosen]
      by (auto simp: unchosen_upd card_gt_0_iff)
    have len: "length (perm @ [docblocks ! i]) + card (unchosen docblocks (chosen(i := True)))
            = length docblocks"
      using c pos "1.prems"(1) by simp
    have d: "distinct js'" and s: "set js' = unchosen docblocks (chosen(i := True))"
      using js "1.prems"(2,3) iu by (auto simp: unchosen_upd)
    have "(perm @ [docblocks ! i]) @ map (nth docblocks) js'
            \<in> set (visited docblocks (chosen(i := True)) (perm @ [docblocks ! i]))"
      using i len d s by (intro "1.IH" [OF False _ i(2)]) (simp_all add: fun_upd_def)
    then show ?thesis using False i js by (subst visited.simps) auto
  qed
qed

lemma orderings_iff: "P \<in> set (orderings docblocks) \<longleftrightarrow> is_ordering docblocks P"
proof -
  have u: "unchosen docblocks (\<lambda>i. False) = {..<length docblocks}"
    by (auto simp: unchosen_def)
  then have inv: "length ([] :: docblock list) + card (unchosen docblocks (\<lambda>i. False))
                    = length docblocks"
    by simp
  show ?thesis
    using visited_sound [OF inv, of P] visited_complete [OF inv] u
    by (auto simp: orderings_def is_ordering_def)
qed

lemma is_ordering_self: "is_ordering docblocks docblocks"
  unfolding is_ordering_def
  by (rule exI [of _ "[0..<length docblocks]"]) (auto simp: map_nth)

lemma orderings_nonempty: "orderings docblocks \<noteq> []"
  using is_ordering_self [of docblocks] orderings_iff [of docblocks docblocks] by auto

lemma is_ordering_mem:
  assumes "is_ordering docblocks P" and "b \<in> set docblocks"
  shows "b \<in> set P"
proof -
  obtain js where js: "set js = {..<length docblocks}" "P = map (nth docblocks) js"
    using assms(1) by (auto simp: is_ordering_def)
  obtain i where i: "i < length docblocks" "b = docblocks ! i"
    using assms(2) by (auto simp: in_set_conv_nth)
  then have "i \<in> set js" using js(1) by simp
  then have "docblocks ! i \<in> nth docblocks ` set js" by (rule imageI)
  then show ?thesis using i js(2) by simp
qed

section \<open>Lemmas on the search and the diff\<close>

lemma score_walk: "walk None rlines (concat P) 0 0 0 = Some (score rlines P)"
  using walk_total [of rlines "concat P" 0 0 0] by (auto simp: score_def)

lemma find_min_1_closed:
  "find_min_1 rlines P st =
     (if exceeds (min_dist st) (dist_of rlines P) then st
      else \<lparr>min_dist = Some (dist_of rlines P), min_data = Some (merged_of rlines P),
            dists = dists st @ [dist_of rlines P]\<rparr>)"
proof (cases "min_dist st")
  case None
  then show ?thesis
    by (simp add: find_min_1_def score_walk exceeds_def dist_of_def merged_of_def split: prod.splits)
next
  case (Some b)
  have "walk (Some b) rlines (concat P) 0 0 0 =
          (if dist_of rlines P \<le> b then Some (score rlines P) else None)"
    by (simp add: walk_bound score_walk dist_of_def split: prod.splits)
  then show ?thesis using Some
    by (auto simp: find_min_1_def exceeds_def dist_of_def merged_of_def split: prod.splits)
qed

lemma fold_min_source:
  "min_dist (fold (find_min_1 rlines) Ps st) = min_dist st
   \<or> (\<exists>Q \<in> set Ps. min_dist (fold (find_min_1 rlines) Ps st) = Some (dist_of rlines Q))"
proof (induction Ps arbitrary: st)
  case Nil
  then show ?case by simp
next
  case (Cons P Ps)
  show ?case
    using Cons [of "find_min_1 rlines P st"]
    by (auto simp: find_min_1_closed split: if_splits)
qed

lemma fold_min_keep:
  "min_dist st = Some b \<Longrightarrow> \<forall>Q \<in> set Ps. b < dist_of rlines Q \<Longrightarrow>
   min_dist (fold (find_min_1 rlines) Ps st) = min_dist st
   \<and> min_data (fold (find_min_1 rlines) Ps st) = min_data st"
proof (induction Ps arbitrary: st)
  case Nil
  then show ?case by simp
next
  case (Cons P Ps)
  then have "find_min_1 rlines P st = st"
    by (simp add: find_min_1_closed exceeds_def)
  with Cons show ?case by simp
qed

lemma fold_last_min:
  assumes "\<forall>Q \<in> set Ps1. dist_of rlines P \<le> dist_of rlines Q"
    and "\<forall>Q \<in> set Ps2. dist_of rlines P < dist_of rlines Q"
  shows "min_dist (fold (find_min_1 rlines) (Ps1 @ P # Ps2) search_init) = Some (dist_of rlines P)
       \<and> min_data (fold (find_min_1 rlines) (Ps1 @ P # Ps2) search_init) = Some (merged_of rlines P)"
proof -
  let ?st1 = "fold (find_min_1 rlines) Ps1 search_init"
  have "\<not> exceeds (min_dist ?st1) (dist_of rlines P)"
    using fold_min_source [of rlines Ps1 search_init] assms(1)
    by (auto simp: exceeds_def search_init_def)
  then have st2: "min_dist (find_min_1 rlines P ?st1) = Some (dist_of rlines P)"
    "min_data (find_min_1 rlines P ?st1) = Some (merged_of rlines P)"
    by (simp_all add: find_min_1_closed)
  show ?thesis
    using fold_min_keep [OF st2(1) assms(2)] st2 by simp
qed

lemma last_min_split:
  assumes "Ps \<noteq> []"
  shows "\<exists>Ps1 P Ps2. Ps = Ps1 @ P # Ps2
           \<and> (\<forall>Q \<in> set Ps1. f P \<le> f Q) \<and> (\<forall>Q \<in> set Ps2. (f P :: nat) < f Q)"
proof -
  let ?m = "Min (f ` set Ps)"
  have "?m \<in> f ` set Ps" using assms by (intro Min_in) simp_all
  then have "\<exists>x \<in> set Ps. f x = ?m" by auto
  then obtain Ps1 P Ps2 where s: "Ps = Ps1 @ P # Ps2" "f P = ?m" "\<forall>Q \<in> set Ps2. f Q \<noteq> ?m"
    using split_list_last_prop [of Ps "\<lambda>x. f x = ?m"] by blast
  have le: "?m \<le> f Q" if "Q \<in> set Ps" for Q using that by simp
  have "\<forall>Q \<in> set Ps1. f P \<le> f Q" using s(1,2) le by simp
  moreover have "\<forall>Q \<in> set Ps2. f P < f Q"
  proof
    fix Q assume q: "Q \<in> set Ps2"
    then have "?m \<le> f Q" using s(1) le by simp
    moreover have "f Q \<noteq> ?m" using s(3) q by blast
    ultimately show "f P < f Q" using s(2) by simp
  qed
  ultimately show ?thesis using s(1) by blast
qed

lemma search_all_winner:
  "\<exists>W \<in> set (orderings docblocks).
     min_dist (search_all docblocks rlines) = Some (dist_of rlines W)
     \<and> min_data (search_all docblocks rlines) = Some (merged_of rlines W)
     \<and> (\<forall>Q \<in> set (orderings docblocks). dist_of rlines W \<le> dist_of rlines Q)"
proof -
  obtain Ps1 P Ps2 where s: "orderings docblocks = Ps1 @ P # Ps2"
    "\<forall>Q \<in> set Ps1. dist_of rlines P \<le> dist_of rlines Q"
    "\<forall>Q \<in> set Ps2. dist_of rlines P < dist_of rlines Q"
    using last_min_split [OF orderings_nonempty, where f = "dist_of rlines" and docblocks1 = docblocks] by blast
  have "\<forall>Q \<in> set (orderings docblocks). dist_of rlines P \<le> dist_of rlines Q"
    using s by (auto simp: less_imp_le)
  moreover have "P \<in> set (orderings docblocks)" using s(1) by simp
  ultimately show ?thesis
    using fold_last_min [OF s(2,3)] s(1) by (auto simp: search_all_fold)
qed

lemma merged_of_subseq: "subseq (concat P) (merged_of rlines P)"
  using score_walk [of rlines P] walk_subseq [of None rlines "concat P" 0 0 0]
  by (cases "score rlines P") (simp add: merged_of_def)

lemma subseq_concat_mem: "b \<in> set P \<Longrightarrow> subseq b (concat P)"
proof (induction P)
  case Nil
  then show ?case by simp
next
  case (Cons a P)
  show ?case
  proof (cases "b = a")
    case True
    have "subseq (a @ []) (a @ concat P)"
      using subseq_order.refl by (rule list_emb_append_mono) simp
    then show ?thesis using True by simp
  next
    case False
    then have "subseq b (concat P)" using Cons by simp
    then have "subseq b (a @ concat P)" by (rule list_emb_append2)
    then show ?thesis by simp
  qed
qed

lemma saveReadme_diff:
  assumes "diff_contract D"
  shows "saveReadme (D old new) = trim new"
proof -
  have nf: "\<forall>p \<in> set (D old new). \<not> fresh p"
    and kept: "concat (map pvalue (filter (\<lambda>p. \<not> removed p) (D old new))) = new"
    using assms by (simp_all add: diff_contract_def)
  have "filter (\<lambda>p. classify p \<noteq> Removed) (D old new) = filter (\<lambda>p. \<not> removed p) (D old new)"
    using nf by (intro filter_cong) (auto simp: classify_def)
  then show ?thesis using kept by (simp add: saveReadme_closed)
qed

lemma regen_readme_closed:
  assumes "diff_contract D" and "min_data (search_all docblocks (split_lines readme)) = Some data"
  shows "regen_readme D readme docblocks = Written (trim (join [nl] data))"
  using assms(2) saveReadme_diff [OF assms(1)]
  by (simp add: regen_readme_def search_all_def trim_idem)

lemma whole_diff_contract: "diff_contract whole_diff"
  by (auto simp: diff_contract_def whole_diff_def)

lemma score_same: "score (concat P) P = (0, concat P)"
  using score_walk [of "concat P" P] walk_same [of 0 "concat P" None 0] by simp

section \<open>Lemmas on the regular expressions\<close>

lemma matches_One_iff:
  "matches (One k # r) s \<longleftrightarrow> (\<exists>c v. s = c # v \<and> holds k c \<and> matches r v)"
  by (cases s) auto

lemma matches_Opt_iff:
  "matches (Opt k # r) s \<longleftrightarrow> matches r s \<or> (\<exists>c v. s = c # v \<and> holds k c \<and> matches r v)"
  by (cases s) auto

lemma matches_Many_iff:
  "matches (Many k # r) s \<longleftrightarrow> (\<exists>u v. s = u @ v \<and> list_all (holds k) u \<and> matches r v)"
proof (induction s)
  case Nil
  then show ?case by simp
next
  case (Cons c cs)
  show ?case
  proof
    assume "matches (Many k # r) (c # cs)"
    then consider "holds k c" "matches (Many k # r) cs" | "matches r (c # cs)" by auto
    then show "\<exists>u v. c # cs = u @ v \<and> list_all (holds k) u \<and> matches r v"
    proof cases
      case 1
      then obtain u v where "cs = u @ v" "list_all (holds k) u" "matches r v"
        using Cons by blast
      then have "c # cs = (c # u) @ v \<and> list_all (holds k) (c # u) \<and> matches r v"
        using 1(1) by simp
      then show ?thesis by blast
    next
      case 2
      then have "c # cs = [] @ (c # cs) \<and> list_all (holds k) [] \<and> matches r (c # cs)" by simp
      then show ?thesis by blast
    qed
  next
    assume "\<exists>u v. c # cs = u @ v \<and> list_all (holds k) u \<and> matches r v"
    then obtain u v where uv: "c # cs = u @ v" "list_all (holds k) u" "matches r v" by blast
    show "matches (Many k # r) (c # cs)"
    proof (cases u)
      case Nil
      then have "matches r (c # cs)" using uv by simp
      then show ?thesis by simp
    next
      case (Cons a u')
      then have "cs = u' @ v" "holds k c" "list_all (holds k) u'" using uv by simp_all
      then have "matches (Many k # r) cs" using uv(3) Cons.IH by blast
      then show ?thesis using \<open>holds k c\<close> by simp
    qed
  qed
qed

lemma matches_Many_end: "matches [Many k] s \<longleftrightarrow> list_all (holds k) s"
  by (auto simp: matches_Many_iff)

lemma holds_classes:
  "holds dot c \<longleftrightarrow> c \<noteq> nl \<and> c \<noteq> cr"
  "holds (In [sp, tab]) c \<longleftrightarrow> c = sp \<or> c = tab"
  "holds (In [sp, tab, nl]) c \<longleftrightarrow> c = sp \<or> c = tab \<or> c = nl"
  by (auto simp: dot_def)

lemma tag_re_iff:
  "matches tag_re l \<longleftrightarrow>
     (\<exists>ws a ws'. l = ws @ ''<'' @ a @ ''>'' @ ws'
        \<and> set ws \<subseteq> {sp, tab} \<and> nl \<notin> set a \<and> cr \<notin> set a \<and> set ws' \<subseteq> {sp, tab, nl})"
  (is "?L \<longleftrightarrow> ?R")
proof
  assume ?L
  then obtain ws v1 where 1: "l = ws @ v1" "list_all (holds (In [sp, tab])) ws"
      "matches [One (In ''<''), Many dot, One (In ''>''), Many (In [sp, tab, nl])] v1"
    unfolding tag_re_def matches_Many_iff [of "In [sp, tab]"] by blast
  then obtain v2 where 2: "v1 = CHR ''<'' # v2"
      "matches [Many dot, One (In ''>''), Many (In [sp, tab, nl])] v2"
    unfolding matches_One_iff [of "In ''<''"] by auto
  then obtain a v3 where 3: "v2 = a @ v3" "list_all (holds dot) a"
      "matches [One (In ''>''), Many (In [sp, tab, nl])] v3"
    unfolding matches_Many_iff [of dot] by blast
  then obtain ws' where 4: "v3 = CHR ''>'' # ws'" "list_all (holds (In [sp, tab, nl])) ws'"
    unfolding matches_One_iff [of "In ''>''"] matches_Many_end by auto
  have "l = ws @ ''<'' @ a @ ''>'' @ ws'" using 1(1) 2(1) 3(1) 4(1) by simp
  moreover have "set ws \<subseteq> {sp, tab}" "nl \<notin> set a" "cr \<notin> set a" "set ws' \<subseteq> {sp, tab, nl}"
    using 1(2) 3(2) 4(2) by (auto simp: list_all_iff dot_def)
  ultimately show ?R by blast
next
  assume ?R
  then obtain ws a ws' where r: "l = ws @ ''<'' @ a @ ''>'' @ ws'"
    "set ws \<subseteq> {sp, tab}" "nl \<notin> set a" "cr \<notin> set a" "set ws' \<subseteq> {sp, tab, nl}"
    by blast
  have 4: "matches [One (In ''>''), Many (In [sp, tab, nl])] (CHR ''>'' # ws')"
    using r(5) by (auto simp: matches_Many_end list_all_iff)
  have "list_all (holds dot) a" using r(3,4) by (auto simp: list_all_iff dot_def)
  then have 3: "matches [Many dot, One (In ''>''), Many (In [sp, tab, nl])] (a @ CHR ''>'' # ws')"
    using 4 unfolding matches_Many_iff [of dot] by blast
  then have 2: "matches [One (In ''<''), Many dot, One (In ''>''), Many (In [sp, tab, nl])]
                  (CHR ''<'' # a @ CHR ''>'' # ws')"
    by simp
  have "list_all (holds (In [sp, tab])) ws" using r(2) by (auto simp: list_all_iff)
  then have "matches tag_re (ws @ CHR ''<'' # a @ CHR ''>'' # ws')"
    using 2 unfolding tag_re_def matches_Many_iff [of "In [sp, tab]"] by blast
  then show ?L using r(1) by simp
qed

lemma img_re_iff:
  "matches img_re l \<longleftrightarrow>
     (\<exists>ws a b ws'. l = ws @ ''!['' @ a @ '']('' @ b @ '')'' @ ws'
        \<and> set ws \<subseteq> {sp, tab} \<and> nl \<notin> set a \<and> cr \<notin> set a \<and> CHR '')'' \<notin> set b
        \<and> set ws' \<subseteq> {sp, tab, nl})"
  (is "?L \<longleftrightarrow> ?R")
proof
  assume ?L
  then obtain ws v1 where 1: "l = ws @ v1" "list_all (holds (In [sp, tab])) ws"
      "matches [One (In ''!''), One (In ''[''), Many dot, One (In '']''), One (In ''(''),
                Many (NotIn '')''), One (In '')''), Many (In [sp, tab, nl])] v1"
    unfolding img_re_def matches_Many_iff [of "In [sp, tab]"] by blast
  then obtain v2 where 2: "v1 = CHR ''!'' # CHR ''['' # v2"
      "matches [Many dot, One (In '']''), One (In ''(''),
                Many (NotIn '')''), One (In '')''), Many (In [sp, tab, nl])] v2"
    unfolding matches_One_iff [of "In ''!''"] matches_One_iff [of "In ''[''"] by auto
  then obtain a v3 where 3: "v2 = a @ v3" "list_all (holds dot) a"
      "matches [One (In '']''), One (In ''(''),
                Many (NotIn '')''), One (In '')''), Many (In [sp, tab, nl])] v3"
    unfolding matches_Many_iff [of dot] by blast
  then obtain v4 where 4: "v3 = CHR '']'' # CHR ''('' # v4"
      "matches [Many (NotIn '')''), One (In '')''), Many (In [sp, tab, nl])] v4"
    unfolding matches_One_iff [of "In '']''"] matches_One_iff [of "In ''(''"] by auto
  then obtain b v5 where 5: "v4 = b @ v5" "list_all (holds (NotIn '')'')) b"
      "matches [One (In '')''), Many (In [sp, tab, nl])] v5"
    unfolding matches_Many_iff [of "NotIn '')''"] by blast
  then obtain ws' where 6: "v5 = CHR '')'' # ws'" "list_all (holds (In [sp, tab, nl])) ws'"
    unfolding matches_One_iff [of "In '')''"] matches_Many_end by auto
  have "l = ws @ ''!['' @ a @ '']('' @ b @ '')'' @ ws'"
    using 1(1) 2(1) 3(1) 4(1) 5(1) 6(1) by simp
  moreover have "set ws \<subseteq> {sp, tab}" "nl \<notin> set a" "cr \<notin> set a" "CHR '')'' \<notin> set b"
    "set ws' \<subseteq> {sp, tab, nl}"
    using 1(2) 3(2) 5(2) 6(2) by (auto simp: list_all_iff dot_def)
  ultimately show ?R by blast
next
  assume ?R
  then obtain ws a b ws' where r: "l = ws @ ''!['' @ a @ '']('' @ b @ '')'' @ ws'"
    "set ws \<subseteq> {sp, tab}" "nl \<notin> set a" "cr \<notin> set a" "CHR '')'' \<notin> set b"
    "set ws' \<subseteq> {sp, tab, nl}"
    by blast
  have 6: "matches [One (In '')''), Many (In [sp, tab, nl])] (CHR '')'' # ws')"
    using r(6) by (auto simp: matches_Many_end list_all_iff)
  have "list_all (holds (NotIn '')'')) b" using r(5) by (auto simp: list_all_iff)
  then have 5: "matches [Many (NotIn '')''), One (In '')''), Many (In [sp, tab, nl])]
                  (b @ CHR '')'' # ws')"
    using 6 unfolding matches_Many_iff [of "NotIn '')''"] by blast
  then have 4: "matches [One (In '']''), One (In ''(''),
                Many (NotIn '')''), One (In '')''), Many (In [sp, tab, nl])]
                  (CHR '']'' # CHR ''('' # b @ CHR '')'' # ws')"
    by simp
  have "list_all (holds dot) a" using r(3,4) by (auto simp: list_all_iff dot_def)
  then have 3: "matches [Many dot, One (In '']''), One (In ''(''),
                Many (NotIn '')''), One (In '')''), Many (In [sp, tab, nl])]
                  (a @ CHR '']'' # CHR ''('' # b @ CHR '')'' # ws')"
    using 4 unfolding matches_Many_iff [of dot] by blast
  then have 2: "matches [One (In ''!''), One (In ''[''), Many dot, One (In '']''), One (In ''(''),
                Many (NotIn '')''), One (In '')''), Many (In [sp, tab, nl])]
                  (CHR ''!'' # CHR ''['' # a @ CHR '']'' # CHR ''('' # b @ CHR '')'' # ws')"
    by simp
  have "list_all (holds (In [sp, tab])) ws" using r(2) by (auto simp: list_all_iff)
  then have "matches img_re (ws @ CHR ''!'' # CHR ''['' # a @ CHR '']'' # CHR ''('' # b @ CHR '')'' # ws')"
    using 2 unfolding img_re_def matches_Many_iff [of "In [sp, tab]"] by blast
  then show ?L using r(1) by simp
qed

lemma lit_prefix_iff:
  "lit_prefix ks s = Some rest \<longleftrightarrow> (\<exists>u. s = u @ rest \<and> list_all2 holds ks u)"
proof (induction ks s rule: lit_prefix.induct)
  case (1 s)
  then show ?case by auto
next
  case (2 k ks)
  then show ?case by (auto simp: list_all2_Cons1)
next
  case (3 k ks c cs)
  then show ?case by (auto simp: list_all2_Cons1 Cons_eq_append_conv)
qed

lemma search_end_iff: "search_end r s \<longleftrightarrow> (\<exists>pre t. s = pre @ t \<and> matches r t)"
proof (induction s)
  case Nil
  then show ?case by simp
next
  case (Cons c cs)
  show ?case
  proof
    assume "search_end r (c # cs)"
    then consider "matches r (c # cs)" | "search_end r cs" by auto
    then show "\<exists>pre t. c # cs = pre @ t \<and> matches r t"
    proof cases
      case 1
      then have "c # cs = [] @ (c # cs) \<and> matches r (c # cs)" by simp
      then show ?thesis by blast
    next
      case 2
      then obtain pre t where "cs = pre @ t" "matches r t" using Cons by blast
      then have "c # cs = (c # pre) @ t \<and> matches r t" by simp
      then show ?thesis by blast
    qed
  next
    assume "\<exists>pre t. c # cs = pre @ t \<and> matches r t"
    then obtain pre t where p: "c # cs = pre @ t" "matches r t" by blast
    show "search_end r (c # cs)"
    proof (cases pre)
      case Nil
      then have "matches r (c # cs)" using p by simp
      then show ?thesis by simp
    next
      case (Cons a pre')
      then have "cs = pre' @ t" using p(1) by simp
      then have "search_end r cs" using p(2) Cons.IH by blast
      then show ?thesis by simp
    qed
  qed
qed

lemma marker_iff:
  "list_all2 holds marker u \<longleftrightarrow>
     (\<exists>c1 c2. is_cmt c1 \<and> is_cmt c2 \<and> u = [c1, c2, CHR ''*'', CHR ''*''])"
proof
  assume "list_all2 holds marker u"
  then obtain c1 u1 where 1: "u = c1 # u1" "holds (In ''/#'') c1"
      "list_all2 holds [In ''/#'', In ''*'', In ''*''] u1"
    unfolding marker_def list_all2_Cons1 [of holds "In ''/#''"] by blast
  then obtain c2 u2 where 2: "u1 = c2 # u2" "holds (In ''/#'') c2"
      "list_all2 holds [In ''*'', In ''*''] u2"
    unfolding list_all2_Cons1 [of holds "In ''/#''"] by blast
  then obtain c3 u3 where 3: "u2 = c3 # u3" "holds (In ''*'') c3" "list_all2 holds [In ''*''] u3"
    unfolding list_all2_Cons1 [of holds "In ''*''" "[In ''*'']"] by blast
  then obtain c4 where 4: "u3 = [c4]" "holds (In ''*'') c4"
    unfolding list_all2_Cons1 [of holds "In ''*''" "[]"] by auto
  have "is_cmt c1" "is_cmt c2" using 1(2) 2(2) by (simp_all add: is_cmt_def)
  moreover have "u = [c1, c2, CHR ''*'', CHR ''*'']" using 1(1) 2(1) 3(1,2) 4 by simp
  ultimately show "\<exists>c1 c2. is_cmt c1 \<and> is_cmt c2 \<and> u = [c1, c2, CHR ''*'', CHR ''*'']" by blast
next
  assume "\<exists>c1 c2. is_cmt c1 \<and> is_cmt c2 \<and> u = [c1, c2, CHR ''*'', CHR ''*'']"
  then obtain c1 c2 where "is_cmt c1" "is_cmt c2" "u = [c1, c2, CHR ''*'', CHR ''*'']" by blast
  then show "list_all2 holds marker u" by (simp add: marker_def is_cmt_def)
qed

lemma matches_map_One:
  "matches (map One ks @ r) s \<longleftrightarrow> (\<exists>u v. s = u @ v \<and> list_all2 holds ks u \<and> matches r v)"
proof (induction ks arbitrary: s)
  case Nil
  then show ?case by simp
next
  case (Cons k ks)
  show ?case
  proof
    assume "matches (map One (k # ks) @ r) s"
    then obtain c s' where 1: "s = c # s'" "holds k c" "matches (map One ks @ r) s'"
      by (auto simp: matches_One_iff)
    then obtain u v where 2: "s' = u @ v" "list_all2 holds ks u" "matches r v"
      using Cons by blast
    have "s = (c # u) @ v \<and> list_all2 holds (k # ks) (c # u) \<and> matches r v"
      using 1 2 by simp
    then show "\<exists>u v. s = u @ v \<and> list_all2 holds (k # ks) u \<and> matches r v" by blast
  next
    assume "\<exists>u v. s = u @ v \<and> list_all2 holds (k # ks) u \<and> matches r v"
    then obtain u v where 1: "s = u @ v" "list_all2 holds (k # ks) u" "matches r v" by blast
    then obtain c u' where 2: "u = c # u'" "holds k c" "list_all2 holds ks u'"
      by (auto simp: list_all2_Cons1)
    then have "matches (map One ks @ r) (u' @ v)" using 1(3) Cons by blast
    then show "matches (map One (k # ks) @ r) s" using 1(1) 2 by simp
  qed
qed

lemma matches_marker_end:
  "matches (map One marker @ [Opt (In [sp])]) t \<longleftrightarrow>
     (\<exists>c1 c2. is_cmt c1 \<and> is_cmt c2 \<and> (t = [c1, c2] @ ''**'' \<or> t = [c1, c2] @ ''** ''))"
proof -
  have o: "matches [Opt (In [sp])] v \<longleftrightarrow> v = [] \<or> v = '' ''" for v
    by (cases v) (auto simp: sp_def)
  show ?thesis
  proof
    assume "matches (map One marker @ [Opt (In [sp])]) t"
    then obtain u v where 1: "t = u @ v" "list_all2 holds marker u" "v = [] \<or> v = '' ''"
      unfolding matches_map_One o by blast
    then obtain c1 c2 where 2: "is_cmt c1" "is_cmt c2" "u = [c1, c2, CHR ''*'', CHR ''*'']"
      unfolding marker_iff by blast
    have "t = [c1, c2] @ ''**'' \<or> t = [c1, c2] @ ''** ''" using 1(1,3) 2(3) by auto
    then show "\<exists>c1 c2. is_cmt c1 \<and> is_cmt c2 \<and> (t = [c1, c2] @ ''**'' \<or> t = [c1, c2] @ ''** '')"
      using 2(1,2) by blast
  next
    assume "\<exists>c1 c2. is_cmt c1 \<and> is_cmt c2 \<and> (t = [c1, c2] @ ''**'' \<or> t = [c1, c2] @ ''** '')"
    then obtain c1 c2 where 2: "is_cmt c1" "is_cmt c2"
      "t = [c1, c2] @ ''**'' \<or> t = [c1, c2] @ ''** ''" by blast
    have m: "list_all2 holds marker [c1, c2, CHR ''*'', CHR ''*'']"
      using 2(1,2) unfolding marker_iff by blast
    from 2(3) have "\<exists>v. t = [c1, c2, CHR ''*'', CHR ''*''] @ v \<and> (v = [] \<or> v = '' '')"
      by auto
    then show "matches (map One marker @ [Opt (In [sp])]) t"
      unfolding matches_map_One o using m by blast
  qed
qed

lemma search_end_marker:
  "search_end (map One marker @ [Opt (In [sp])]) l \<longleftrightarrow> ends_with_marker l"
  unfolding search_end_iff matches_marker_end ends_with_marker_def by blast

lemma lit_prefix_marker_space:
  "lit_prefix (marker @ [In [sp]]) s = Some rest \<longleftrightarrow>
     (\<exists>c1 c2. is_cmt c1 \<and> is_cmt c2 \<and> s = [c1, c2] @ ''** '' @ rest)"
proof -
  have o: "list_all2 holds [In [sp]] v \<longleftrightarrow> v = '' ''" for v
    by (cases v) (auto simp: sp_def)
  have "list_all2 holds (marker @ [In [sp]]) u \<longleftrightarrow>
          (\<exists>c1 c2. is_cmt c1 \<and> is_cmt c2 \<and> u = [c1, c2] @ ''** '')" for u
  proof
    assume "list_all2 holds (marker @ [In [sp]]) u"
    then obtain us vs where "u = us @ vs" "list_all2 holds marker us"
        "list_all2 holds [In [sp]] vs"
      unfolding list_all2_append1 by blast
    then show "\<exists>c1 c2. is_cmt c1 \<and> is_cmt c2 \<and> u = [c1, c2] @ ''** ''"
      unfolding marker_iff o by auto
  next
    assume "\<exists>c1 c2. is_cmt c1 \<and> is_cmt c2 \<and> u = [c1, c2] @ ''** ''"
    then obtain c1 c2 where "is_cmt c1" "is_cmt c2" "u = [c1, c2] @ ''** ''" by blast
    then show "list_all2 holds (marker @ [In [sp]]) u"
      by (simp add: marker_def is_cmt_def sp_def)
  qed
  then show ?thesis unfolding lit_prefix_iff by auto
qed

lemma marker_space_at_iff:
  "marker_space_at l n \<longleftrightarrow> (\<exists>rest. lit_prefix (marker @ [In [sp]]) (drop n l) = Some rest)"
  unfolding marker_space_at_def lit_prefix_marker_space by blast

lemma marker_space_rest:
  "marker_space_at l n \<Longrightarrow> lit_prefix (marker @ [In [sp]]) (drop n l) = Some (drop (n + 5) l)"
proof -
  assume "marker_space_at l n"
  then obtain c1 c2 rest where r: "is_cmt c1" "is_cmt c2" "drop n l = [c1, c2] @ ''** '' @ rest"
    unfolding marker_space_at_def by blast
  have "drop (n + 5) l = drop 5 (drop n l)" by (simp add: add.commute)
  then have "drop (n + 5) l = rest" using r(3) by simp
  then show ?thesis using r unfolding lit_prefix_marker_space by blast
qed

lemma search_lit_at:
  "lit_prefix ks (drop n s) = Some rest \<Longrightarrow> (\<forall>k<n. lit_prefix ks (drop k s) = None) \<Longrightarrow>
   search_lit ks s = Some rest"
proof (induction n arbitrary: s)
  case 0
  then show ?case by (cases s) simp_all
next
  case (Suc n)
  show ?case
  proof (cases s)
    case Nil
    then show ?thesis using Suc.prems by auto
  next
    case (Cons c cs)
    have h: "lit_prefix ks (c # cs) = None" using Suc.prems(2) Cons by auto
    have "\<forall>k<n. lit_prefix ks (drop k cs) = None"
    proof (intro allI impI)
      fix k assume "k < n"
      then have "lit_prefix ks (drop (Suc k) s) = None" using Suc.prems(2) by simp
      then show "lit_prefix ks (drop k cs) = None" using Cons by simp
    qed
    moreover have "lit_prefix ks (drop n cs) = Some rest" using Suc.prems(1) Cons by simp
    ultimately have "search_lit ks cs = Some rest" by (intro Suc.IH)
    then show ?thesis using h Cons by simp
  qed
qed

lemma search_lit_Some:
  "search_lit ks s = Some rest \<Longrightarrow> \<exists>n. lit_prefix ks (drop n s) = Some rest"
proof (induction s)
  case Nil
  then have "lit_prefix ks (drop 0 []) = Some rest" by simp
  then show ?case by blast
next
  case (Cons c cs)
  show ?case
  proof (cases "lit_prefix ks (c # cs)")
    case None
    then have "search_lit ks cs = Some rest" using Cons.prems by simp
    then obtain n where "lit_prefix ks (drop n cs) = Some rest" using Cons.IH by blast
    then have "lit_prefix ks (drop (Suc n) (c # cs)) = Some rest" by simp
    then show ?thesis by blast
  next
    case (Some r)
    then have "lit_prefix ks (drop 0 (c # cs)) = Some rest" using Cons.prems by simp
    then show ?thesis by blast
  qed
qed

lemma search_lit_None:
  "(\<And>n. lit_prefix ks (drop n s) = None) \<Longrightarrow> search_lit ks s = None"
proof (induction s)
  case Nil
  then show ?case using Nil [of 0] by simp
next
  case (Cons c cs)
  have "lit_prefix ks (c # cs) = None" using Cons.prems [of 0] by simp
  moreover have "search_lit ks cs = None"
  proof (rule Cons.IH)
    fix n show "lit_prefix ks (drop n cs) = None" using Cons.prems [of "Suc n"] by simp
  qed
  ultimately show ?case by simp
qed


section \<open>The properties\<close>

text \<open>
  C1, as amended. Whatever the README was, the text written is a sequence of lines
  \<open>merged\<close>, joined by newlines and then trimmed, in which the blocks of one ordering
  lie whole, one after the other: every line of every block is in \<open>merged\<close>, in the
  order it has in its block. The trimming comes after, so white space at the two ends
  of the text, blank first and last lines included, is not kept.
\<close>

theorem blocks_embedded:
  assumes "diff_contract D" and "docblocks \<noteq> []"
  shows "\<exists>merged P. is_ordering docblocks P \<and> subseq (concat P) merged
           \<and> (\<forall>b \<in> set docblocks. subseq b merged)
           \<and> main D file docblocks = Written (trim (join [nl] merged))"
proof -
  have emb: "\<forall>b \<in> set docblocks. subseq b merged"
    if "is_ordering docblocks P" "subseq (concat P) merged" for P merged
  proof
    fix b assume "b \<in> set docblocks"
    then have "b \<in> set P" using that(1) by (rule is_ordering_mem [rotated])
    then have "subseq b (concat P)" by (rule subseq_concat_mem)
    then show "subseq b merged" using that(2) by (rule subseq_order.trans)
  qed
  show ?thesis
  proof (cases "file")
    case None
    have "main D file docblocks = Written (trim (join [nl] (concat docblocks)))"
      using None assms(2) by (simp add: main_def readsafely_def saveReadme_asDiff trim_terminated)
    moreover have "subseq (concat docblocks) (concat docblocks)" by (rule subseq_order.refl)
    ultimately show ?thesis using emb [OF is_ordering_self] is_ordering_self by blast
  next
    case (Some f)
    let ?rl = "split_lines (trim f)"
    obtain W where w: "W \<in> set (orderings docblocks)"
      "min_data (search_all docblocks ?rl) = Some (merged_of ?rl W)"
      using search_all_winner [of docblocks ?rl] by blast
    have o: "is_ordering docblocks W" using w(1) by (simp add: orderings_iff)
    have s: "subseq (concat W) (merged_of ?rl W)" by (rule merged_of_subseq)
    have "main D file docblocks = Written (trim (join [nl] (merged_of ?rl W)))"
      using Some assms(2) regen_readme_closed [OF assms(1) w(2)]
      by (simp add: main_def readsafely_def)
    then show ?thesis using o s emb [OF o s] by blast
  qed
qed

theorem blocks_embedded_witness:
  "\<exists>merged P. is_ordering [[''intro''], [''outro'']] P \<and> subseq (concat P) merged
     \<and> subseq [''intro''] merged \<and> subseq [''outro''] merged
     \<and> main whole_diff (Some (''intro'' @ [nl] @ ''![x](y.png)'' @ [nl] @ ''outro''))
          [[''intro''], [''outro'']] = Written (trim (join [nl] merged))"
  using blocks_embedded [OF whole_diff_contract, of "[[''intro''], [''outro'']]"
      "Some (''intro'' @ [nl] @ ''![x](y.png)'' @ [nl] @ ''outro'')"]
  by simp

text \<open>
  C1 as stated fails on the trimming: the block \<open>["", "a"]\<close>, written with no README
  present, leaves the text \<open>a\<close>, whose lines do not hold the empty first line of the
  block.
\<close>

theorem trimmed_line_counterexample:
  "main whole_diff None [['''', ''a'']] = Written ''a''
   \<and> \<not> subseq ['''', ''a''] (split_lines ''a'')"
proof -
  have "main whole_diff None [['''', ''a'']] = Written ''a''" by code_simp
  moreover have "split_lines ''a'' = [''a'']" by code_simp
  ultimately show ?thesis by simp
qed

text \<open>
  C2, as amended. With no README file, no search runs (the result does not depend on the
  diff function or on any walk): what is written is the lines of the blocks in
  extraction order, joined by newlines and trimmed, and every entry is classified
  fresh; for the blocks \<open>[["a","a"],["b"]]\<close> the text is exactly \<open>a\na\nb\<close>. A README
  that exists but is empty goes through the search like any other.
\<close>

theorem first_generation:
  "main diffLines None docblocks =
     (if docblocks = [] then Nothing_written
      else Written (trim (join [nl] (concat docblocks))))
   \<and> map classify (asDiff docblocks) = map (\<lambda>l. Fresh) (concat docblocks)
   \<and> main diffLines None [[''a'', ''a''], [''b'']] = Written (''a'' @ [nl] @ ''a'' @ [nl] @ ''b'')"
proof -
  have gen: "main D None bs =
     (if bs = [] then Nothing_written else Written (trim (join [nl] (concat bs))))" for D bs
    by (simp add: main_def readsafely_def saveReadme_asDiff trim_terminated)
  have "trim (''a'' @ [nl] @ ''a'' @ [nl] @ ''b'') = ''a'' @ [nl] @ ''a'' @ [nl] @ ''b''"
    by (rule trim_fixed) (simp add: js_space_def)
  then have ex: "main diffLines None [[''a'', ''a''], [''b'']]
                   = Written (''a'' @ [nl] @ ''a'' @ [nl] @ ''b'')"
    by (simp add: gen)
  have "map classify (asDiff docblocks) = map (\<lambda>l. Fresh) (concat docblocks)"
    by (simp add: asDiff_flat o_def classify_fresh_part)
  with gen ex show ?thesis by blast
qed

text \<open>
  C2 as stated fails for an empty README: the file exists, so \<open>readme == null\<close> is false
  and the search runs on the single empty line; both orderings of \<open>[["a"],["b"]]\<close> score
  0 and the one found last is kept, so \<open>b\na\<close> is written, not \<open>a\nb\<close>.
\<close>

theorem empty_document_is_searched:
  "main whole_diff (Some []) [[''a''], [''b'']] = Written (''b'' @ [nl] @ ''a'')
   \<and> dists (search_all [[''a''], [''b'']] (split_lines [])) = [0, 0]
   \<and> trim (join [nl] (concat [[''a''], [''b'']])) = ''a'' @ [nl] @ ''b''"
  by code_simp

text \<open>
  C3, as amended. The ordering that is returned is the last one of minimal distance in
  the order of generation: an ordering that no earlier one beats and that beats every
  later one gives the distance and the merged lines of the result. A later ordering of
  equal distance replaces an earlier one.
\<close>

theorem last_minimal_wins:
  assumes "orderings docblocks = Ps1 @ P # Ps2"
    and "\<forall>Q \<in> set Ps1. dist_of rlines P \<le> dist_of rlines Q"
    and "\<forall>Q \<in> set Ps2. dist_of rlines P < dist_of rlines Q"
  shows "min_dist (search_all docblocks rlines) = Some (dist_of rlines P)
       \<and> min_data (search_all docblocks rlines) = Some (merged_of rlines P)"
  using fold_last_min [OF assms(2,3)] assms(1) by (simp add: search_all_fold)

theorem last_minimal_wins_witness:
  "orderings [[''a''], [''b'']] = [[[''a''], [''b'']]] @ [[''b''], [''a'']] # []
   \<and> dist_of [''c''] [[''a''], [''b'']] = 2 \<and> dist_of [''c''] [[''b''], [''a'']] = 2
   \<and> min_dist (search_all [[''a''], [''b'']] [''c'']) = Some 2
   \<and> min_data (search_all [[''a''], [''b'']] [''c'']) = Some [''b'', ''a'']"
proof -
  have o: "orderings [[''a''], [''b'']] = [[[''a''], [''b'']]] @ [[''b''], [''a'']] # []"
    by code_simp
  have d1: "dist_of [''c''] [[''a''], [''b'']] = 2" by code_simp
  have d2: "dist_of [''c''] [[''b''], [''a'']] = 2" by code_simp
  have m: "merged_of [''c''] [[''b''], [''a'']] = [''b'', ''a'']" by code_simp
  have h1: "\<forall>Q \<in> set [[[''a''], [''b'']]]. dist_of [''c''] [[''b''], [''a'']] \<le> dist_of [''c''] Q"
    using d1 d2 by simp
  have h2: "\<forall>Q \<in> set []. dist_of [''c''] [[''b''], [''a'']] < dist_of [''c''] Q"
    by simp
  show ?thesis using last_minimal_wins [OF o h1 h2] o d1 d2 m by simp
qed

text \<open>
  C3 as stated fails: against the README \<open>c\<close> the two orderings of \<open>[["a"],["b"]]\<close>
  both have distance 2; the first found is \<open>a, b\<close>, the result is \<open>b, a\<close>.
\<close>

theorem tie_first_found_counterexample:
  "orderings [[''a''], [''b'']] = [[[''a''], [''b'']], [[''b''], [''a'']]]
   \<and> dist_of [''c''] [[''a''], [''b'']] = dist_of [''c''] [[''b''], [''a'']]
   \<and> merged_of [''c''] [[''a''], [''b'']] = [''a'', ''b'']
   \<and> min_data (search_all [[''a''], [''b'']] [''c'']) = Some [''b'', ''a'']
   \<and> main whole_diff (Some ''c'') [[''a''], [''b'']] = Written (''b'' @ [nl] @ ''a'')"
  by code_simp

text \<open>
  C4 fails on the code. The README \<open>intro, outro, ![x](y.png)\<close> ends with a structural
  line; the walk stops when the lines of the blocks are used up, the image line is
  never inserted, and the text written is \<open>intro, outro\<close>.
\<close>

theorem structural_line_lost:
  "isSplLine ''![x](y.png)''
   \<and> min_data (search_all [[''intro''], [''outro'']]
        (split_lines (''intro'' @ [nl] @ ''outro'' @ [nl] @ ''![x](y.png)'')))
       = Some [''intro'', ''outro'']
   \<and> main whole_diff (Some (''intro'' @ [nl] @ ''outro'' @ [nl] @ ''![x](y.png)''))
        [[''intro''], [''outro'']] = Written (''intro'' @ [nl] @ ''outro'')"
  by code_simp

text \<open>
  C5. In the mismatch branch the walk goes on from what \<open>mismatch\<close> returns, unless
  the new distance exceeds the minimum. If \<open>i\<close> is the first offset from 1 to 6 where
  the current line of \<open>data\<close> reappears in \<open>rlines\<close> or the current line of \<open>rlines\<close>
  reappears in \<open>data\<close>, the distance grows by \<open>i\<close> and the cursor of the side where
  the line was found (that of \<open>rlines\<close> when both are) moves \<open>i\<close> further; with no such
  offset the distance grows by 2; in each case both cursors then move one further.
\<close>

theorem mismatch_lookahead:
  assumes "nd < length data" and "nr < length rlines" and "data ! nd \<noteq> rlines ! nr"
    and "\<not> (data ! nd = [] \<or> isSplLine (data ! nd))"
    and "\<not> (rlines ! nr = [] \<or> isSplLine (rlines ! nr))"
  shows "maxLookAhead = 7
     \<and> walk best rlines data nd nr dist =
         (case mismatch data rlines nd nr dist of
            (dist', nd', nr') \<Rightarrow>
              if exceeds best dist' then None else walk best rlines data nd' nr' dist')
     \<and> (1 \<le> i \<and> i < maxLookAhead
            \<and> (ref_hit data rlines nd nr i \<or> data_hit data rlines nd nr i)
            \<and> (\<forall>j. 1 \<le> j \<and> j < i \<longrightarrow>
                  \<not> ref_hit data rlines nd nr j \<and> \<not> data_hit data rlines nd nr j)
          \<longrightarrow> mismatch data rlines nd nr dist =
                (dist + i,
                 (if ref_hit data rlines nd nr i then nd else nd + i) + 1,
                 (if ref_hit data rlines nd nr i then nr + i else nr) + 1))
     \<and> ((\<forall>j. 1 \<le> j \<and> j < maxLookAhead \<longrightarrow>
                  \<not> ref_hit data rlines nd nr j \<and> \<not> data_hit data rlines nd nr j)
          \<longrightarrow> mismatch data rlines nd nr dist = (dist + 2, nd + 1, nr + 1))"
proof -
  have w: "walk best rlines data nd nr dist =
         (case mismatch data rlines nd nr dist of
            (dist', nd', nr') \<Rightarrow>
              if exceeds best dist' then None else walk best rlines data nd' nr' dist')"
    using walk_mismatch [OF assms] by (cases "mismatch data rlines nd nr dist") simp
  have hit: "mismatch data rlines nd nr dist =
                (dist + i,
                 (if ref_hit data rlines nd nr i then nd else nd + i) + 1,
                 (if ref_hit data rlines nd nr i then nr + i else nr) + 1)"
    if "1 \<le> i" "i < maxLookAhead"
      "ref_hit data rlines nd nr i \<or> data_hit data rlines nd nr i"
      "\<forall>j. 1 \<le> j \<and> j < i \<longrightarrow>
                  \<not> ref_hit data rlines nd nr j \<and> \<not> data_hit data rlines nd nr j" for i
  proof -
    have "look data rlines (data ! nd) (rlines ! nr) 1 dist nd nr =
           (if at rlines (nr + i) = Some (data ! nd) then (i, dist + i, nd, nr + i)
            else (i, dist + i, nd + i, nr))"
      using that by (intro look_first) (simp_all add: ref_hit_def data_hit_def)
    then show ?thesis using that(2) by (simp add: mismatch_def ref_hit_def)
  qed
  have none: "mismatch data rlines nd nr dist = (dist + 2, nd + 1, nr + 1)"
    if "\<forall>j. 1 \<le> j \<and> j < maxLookAhead \<longrightarrow>
                  \<not> ref_hit data rlines nd nr j \<and> \<not> data_hit data rlines nd nr j"
  proof -
    have "look data rlines (data ! nd) (rlines ! nr) 1 dist nd nr = (maxLookAhead, dist, nd, nr)"
      using that by (intro look_none) (simp_all add: ref_hit_def data_hit_def maxLookAhead_def)
    then show ?thesis by (simp add: mismatch_def)
  qed
  show ?thesis using w hit none by (simp add: maxLookAhead_def)
qed

theorem mismatch_lookahead_witness:
  "mismatch [''a'', ''b''] [''c''] 0 0 0 = (2, 1, 1)
   \<and> mismatch [''outro'', ''intro''] [''intro'', ''x'', ''outro''] 0 0 0 = (1, 2, 1)
   \<and> mismatch [''x'', ''y'', ''z''] [''a'', ''b'', ''x''] 0 0 5 = (7, 1, 3)"
proof -
  have s: "\<not> (''a'' = [] \<or> isSplLine ''a'')" "\<not> (''c'' = [] \<or> isSplLine ''c'')"
    "\<not> (''outro'' = [] \<or> isSplLine ''outro'')" "\<not> (''intro'' = [] \<or> isSplLine ''intro'')"
    "\<not> (''x'' = [] \<or> isSplLine ''x'')"
    by code_simp+
  let ?d1 = "[''a'', ''b'']" and ?r1 = "[''c'']"
  have n1: "\<forall>j. 1 \<le> j \<and> j < maxLookAhead \<longrightarrow>
      \<not> ref_hit ?d1 ?r1 0 0 j \<and> \<not> data_hit ?d1 ?r1 0 0 j"
    by (auto simp: ref_hit_def data_hit_def at_def nth_Cons split: nat.splits)
  have 1: "mismatch ?d1 ?r1 0 0 0 = (0 + 2, 0 + 1, 0 + 1)"
    using mismatch_lookahead [of 0 ?d1 0 ?r1 None 0 0] s n1 by simp
  let ?d2 = "[''outro'', ''intro'']" and ?r2 = "[''intro'', ''x'', ''outro'']"
  have c2: "1 \<le> (1::nat) \<and> 1 < maxLookAhead
      \<and> (ref_hit ?d2 ?r2 0 0 1 \<or> data_hit ?d2 ?r2 0 0 1)
      \<and> (\<forall>j. 1 \<le> j \<and> j < 1 \<longrightarrow> \<not> ref_hit ?d2 ?r2 0 0 j \<and> \<not> data_hit ?d2 ?r2 0 0 j)"
    by (simp add: ref_hit_def data_hit_def at_def maxLookAhead_def)
  have r2: "\<not> ref_hit ?d2 ?r2 0 0 1" by (simp add: ref_hit_def at_def)
  have p2: "0 < length ?d2" "0 < length ?r2" "?d2 ! 0 \<noteq> ?r2 ! 0"
    "\<not> (?d2 ! 0 = [] \<or> isSplLine (?d2 ! 0))" "\<not> (?r2 ! 0 = [] \<or> isSplLine (?r2 ! 0))"
    using s by simp_all
  have "mismatch ?d2 ?r2 0 0 0 =
          (0 + 1, (if ref_hit ?d2 ?r2 0 0 1 then 0 else 0 + 1) + 1,
                  (if ref_hit ?d2 ?r2 0 0 1 then 0 + 1 else 0) + 1)"
    using mismatch_lookahead [OF p2, of None 0 1] c2 by blast
  then have 2: "mismatch ?d2 ?r2 0 0 0 = (1, 2, 1)" using r2 by simp
  let ?d3 = "[''x'', ''y'', ''z'']" and ?r3 = "[''a'', ''b'', ''x'']"
  have n3: "\<forall>j. 1 \<le> j \<and> j < (2::nat) \<longrightarrow>
      \<not> ref_hit ?d3 ?r3 0 0 j \<and> \<not> data_hit ?d3 ?r3 0 0 j"
    by (auto simp: ref_hit_def data_hit_def at_def nth_Cons split: nat.splits)
  have r3: "ref_hit ?d3 ?r3 0 0 2" by (simp add: ref_hit_def at_def)
  have c3: "1 \<le> (2::nat) \<and> 2 < maxLookAhead
      \<and> (ref_hit ?d3 ?r3 0 0 2 \<or> data_hit ?d3 ?r3 0 0 2)
      \<and> (\<forall>j. 1 \<le> j \<and> j < 2 \<longrightarrow> \<not> ref_hit ?d3 ?r3 0 0 j \<and> \<not> data_hit ?d3 ?r3 0 0 j)"
    using n3 r3 by (simp add: maxLookAhead_def)
  have p3: "0 < length ?d3" "0 < length ?r3" "?d3 ! 0 \<noteq> ?r3 ! 0"
    "\<not> (?d3 ! 0 = [] \<or> isSplLine (?d3 ! 0))" "\<not> (?r3 ! 0 = [] \<or> isSplLine (?r3 ! 0))"
    using s by simp_all
  have "mismatch ?d3 ?r3 0 0 5 =
          (5 + 2, (if ref_hit ?d3 ?r3 0 0 2 then 0 else 0 + 2) + 1,
                  (if ref_hit ?d3 ?r3 0 0 2 then 0 + 2 else 0) + 1)"
    using mismatch_lookahead [OF p3, of None 5 2] c3 by blast
  then have 3: "mismatch ?d3 ?r3 0 0 5 = (7, 1, 3)" using r3 by simp
  show ?thesis using 1 2 3 by simp
qed

text \<open>
  C6. The early return never costs the search its minimum: the result is the distance
  and the merged lines of an ordering \<open>W\<close> whose true distance is minimal among all
  orderings. So for orderings \<open>A\<close> and \<open>B\<close> with \<open>d(A) < d(B)\<close>, wherever they stand in
  the order of generation, the result is at most \<open>d(A)\<close> and is never that of \<open>B\<close>;
  and when \<open>A\<close> is closer than every other ordering, \<open>A\<close> is the one selected.
\<close>

theorem pruning_safety:
  assumes "is_ordering docblocks A" and "is_ordering docblocks B"
    and "dist_of rlines A < dist_of rlines B"
  shows "\<exists>W. is_ordering docblocks W
           \<and> min_dist (search_all docblocks rlines) = Some (dist_of rlines W)
           \<and> min_data (search_all docblocks rlines) = Some (merged_of rlines W)
           \<and> dist_of rlines W \<le> dist_of rlines A \<and> dist_of rlines W < dist_of rlines B
           \<and> (\<forall>Q. is_ordering docblocks Q \<longrightarrow> dist_of rlines W \<le> dist_of rlines Q)
           \<and> ((\<forall>Q. is_ordering docblocks Q \<and> Q \<noteq> A \<longrightarrow> dist_of rlines A < dist_of rlines Q)
                \<longrightarrow> W = A)"
proof -
  obtain W where w: "W \<in> set (orderings docblocks)"
    "min_dist (search_all docblocks rlines) = Some (dist_of rlines W)"
    "min_data (search_all docblocks rlines) = Some (merged_of rlines W)"
    "\<forall>Q \<in> set (orderings docblocks). dist_of rlines W \<le> dist_of rlines Q"
    using search_all_winner [of docblocks rlines] by blast
  have le: "dist_of rlines W \<le> dist_of rlines Q" if "is_ordering docblocks Q" for Q
    using w(4) that by (simp add: orderings_iff)
  have wa: "dist_of rlines W \<le> dist_of rlines A" using le assms(1) by simp
  then have wb: "dist_of rlines W < dist_of rlines B" using assms(3) by simp
  have o: "is_ordering docblocks W" using w(1) by (simp add: orderings_iff)
  have "W = A"
    if "\<forall>Q. is_ordering docblocks Q \<and> Q \<noteq> A \<longrightarrow> dist_of rlines A < dist_of rlines Q"
  proof (rule ccontr)
    assume "W \<noteq> A"
    then have "dist_of rlines A < dist_of rlines W" using that o by blast
    then show False using wa by simp
  qed
  then show ?thesis using w(2,3) le wa wb o by blast
qed

theorem pruning_safety_witness:
  "dist_of [''c'', ''a'', ''b''] [[''c''], [''a''], [''b'']] = 0
   \<and> dist_of [''c'', ''a'', ''b''] [[''a''], [''b''], [''c'']] = 1
   \<and> min_dist (search_all [[''a''], [''b''], [''c'']] [''c'', ''a'', ''b'']) = Some 0
   \<and> min_data (search_all [[''a''], [''b''], [''c'']] [''c'', ''a'', ''b''])
        = Some [''c'', ''a'', ''b'']"
proof -
  let ?d = "[[''a''], [''b''], [''c'']]" and ?rl = "[''c'', ''a'', ''b'']"
  let ?A = "[[''c''], [''a''], [''b'']]"
  have a: "is_ordering ?d ?A"
    unfolding is_ordering_def by (rule exI [of _ "[2, 0, 1]"]) auto
  have b: "is_ordering ?d ?d" by (rule is_ordering_self)
  have da: "dist_of ?rl ?A = 0" by code_simp
  have db: "dist_of ?rl ?d = 1" by code_simp
  have ma: "merged_of ?rl ?A = ?rl" by code_simp
  have lt: "dist_of ?rl ?A < dist_of ?rl ?d" using da db by simp
  have o: "orderings ?d = [[[''a''], [''b''], [''c'']], [[''a''], [''c''], [''b'']],
                          [[''b''], [''a''], [''c'']], [[''b''], [''c''], [''a'']],
                          [[''c''], [''a''], [''b'']], [[''c''], [''b''], [''a'']]]"
    by code_simp
  have ds: "dist_of ?rl [[''a''], [''c''], [''b'']] = 2" "dist_of ?rl [[''b''], [''a''], [''c'']] = 2"
    "dist_of ?rl [[''b''], [''c''], [''a'']] = 1" "dist_of ?rl [[''c''], [''b''], [''a'']] = 1"
    by code_simp+
  have "\<forall>Q \<in> set (orderings ?d). Q \<noteq> ?A \<longrightarrow> dist_of ?rl ?A < dist_of ?rl Q"
    unfolding o using da db ds by simp
  then have u: "\<forall>Q. is_ordering ?d Q \<and> Q \<noteq> ?A \<longrightarrow> dist_of ?rl ?A < dist_of ?rl Q"
    by (simp add: orderings_iff)
  obtain W where "min_dist (search_all ?d ?rl) = Some (dist_of ?rl W)"
    "min_data (search_all ?d ?rl) = Some (merged_of ?rl W)" "W = ?A"
    using pruning_safety [OF a b lt] u by blast
  then show ?thesis using da db ma by simp
qed

text \<open>
  C7, as amended. If the lines of the (trimmed) README are the flattened blocks of an
  ordering \<open>P\<close>, then \<open>P\<close> has distance 0, its merged lines are the README's, and the
  search ends with distance 0. If moreover no ordering generated after \<open>P\<close> has
  distance 0 and the README holds no carriage return, every entry of the diff is
  classified unchanged and the text written is the trimmed README.
\<close>

theorem noop_stability:
  assumes "diff_contract D" and "cr \<notin> set (trim file)"
    and "orderings docblocks = Ps1 @ P # Ps2"
    and "split_lines (trim file) = concat P"
  shows "dist_of (split_lines (trim file)) P = 0
     \<and> merged_of (split_lines (trim file)) P = split_lines (trim file)
     \<and> min_dist (search_all docblocks (split_lines (trim file))) = Some 0
     \<and> ((\<forall>Q \<in> set Ps2. 0 < dist_of (split_lines (trim file)) Q) \<longrightarrow>
          main D (Some file) docblocks = Written (trim file)
          \<and> (\<forall>p \<in> set (D (trim file) (trim (join [nl] (merged_of (split_lines (trim file)) P)))).
                classify p = Unchanged))"
proof -
  let ?rl = "split_lines (trim file)"
  have sc: "score ?rl P = (0, ?rl)" using score_same [of P] assms(4) by simp
  then have d0: "dist_of ?rl P = 0" and m0: "merged_of ?rl P = ?rl"
    by (simp_all add: dist_of_def merged_of_def)
  obtain W where w: "W \<in> set (orderings docblocks)"
    "min_dist (search_all docblocks ?rl) = Some (dist_of ?rl W)"
    "\<forall>Q \<in> set (orderings docblocks). dist_of ?rl W \<le> dist_of ?rl Q"
    using search_all_winner [of docblocks ?rl] by blast
  have "dist_of ?rl W \<le> dist_of ?rl P" using w(3) assms(3) by simp
  then have best: "min_dist (search_all docblocks ?rl) = Some 0" using w(2) d0 by simp
  have out: "main D (Some file) docblocks = Written (trim file)
          \<and> (\<forall>p \<in> set (D (trim file) (trim (join [nl] (merged_of ?rl P)))).
                classify p = Unchanged)"
    if later: "\<forall>Q \<in> set Ps2. 0 < dist_of ?rl Q"
  proof -
    have "min_data (fold (find_min_1 ?rl) (Ps1 @ P # Ps2) search_init) = Some (merged_of ?rl P)"
      using later d0 by (intro fold_last_min [THEN conjunct2]) simp_all
    then have md: "min_data (search_all docblocks ?rl) = Some ?rl"
      using assms(3) m0 by (simp add: search_all_fold)
    have j: "trim (join [nl] ?rl) = trim file"
      using assms(2) by (simp add: join_split_lines trim_idem)
    have ne: "docblocks \<noteq> []"
    proof
      assume "docblocks = []"
      then have "orderings docblocks = [[]]" by (simp add: orderings_def visited.simps)
      then have "P = []" using assms(3) by (cases Ps1) simp_all
      then show False using assms(4) split_lines_nonempty [of "trim file"] by simp
    qed
    have "regen_readme D (trim file) docblocks = Written (trim file)"
      using regen_readme_closed [OF assms(1) md] j by simp
    then have 1: "main D (Some file) docblocks = Written (trim file)"
      using ne by (simp add: main_def readsafely_def)
    have "\<forall>p \<in> set (D (trim file) (trim file)). \<not> fresh p \<and> \<not> added p \<and> \<not> removed p"
      using assms(1) unfolding diff_contract_def by blast
    then have 2: "\<forall>p \<in> set (D (trim file) (trim (join [nl] (merged_of ?rl P)))).
                classify p = Unchanged"
      using m0 j by (simp add: classify_def)
    from 1 2 show ?thesis by simp
  qed
  show ?thesis using d0 m0 best out by blast
qed

theorem noop_stability_witness:
  "main whole_diff (Some [CHR ''a'', nl, CHR ''b'', nl]) [[''b''], [''a'']]
     = Written [CHR ''a'', nl, CHR ''b'']
   \<and> min_dist (search_all [[''b''], [''a'']] [''a'', ''b'']) = Some 0"
proof -
  let ?file = "[CHR ''a'', nl, CHR ''b'', nl]" and ?d = "[[''b''], [''a'']]"
  have t: "trim ?file = [CHR ''a'', nl, CHR ''b'']" by code_simp
  have c: "cr \<notin> set (trim ?file)" unfolding t by code_simp
  have o: "orderings ?d = [[[''b''], [''a'']]] @ [[''a''], [''b'']] # []" by code_simp
  have sl: "split_lines [CHR ''a'', nl, CHR ''b''] = [''a'', ''b'']" by code_simp
  have s: "split_lines (trim ?file) = concat [[''a''], [''b'']]" unfolding t sl by simp
  have l: "\<forall>Q \<in> set []. 0 < dist_of (split_lines (trim ?file)) Q" by simp
  have "min_dist (search_all ?d (split_lines (trim ?file))) = Some 0
        \<and> main whole_diff (Some ?file) ?d = Written (trim ?file)"
    using noop_stability [OF whole_diff_contract c o s] l by blast
  then show ?thesis unfolding t sl by simp
qed

text \<open>
  C7 as stated fails: the README \<open>a, <x>\<close> is the flattening of the blocks
  \<open>[["a"],["<x>"]]\<close> in extraction order, but the other ordering also has distance 0
  (a structural line of \<open>data\<close> is passed over at no cost) and comes later, so
  \<open><x>, a\<close> is written.
\<close>

theorem noop_stability_counterexample:
  "trim (''a'' @ [nl] @ ''<x>'') = ''a'' @ [nl] @ ''<x>''
   \<and> split_lines (''a'' @ [nl] @ ''<x>'') = concat [[''a''], [''<x>'']]
   \<and> dist_of (split_lines (''a'' @ [nl] @ ''<x>'')) [[''a''], [''<x>'']] = 0
   \<and> main whole_diff (Some (''a'' @ [nl] @ ''<x>'')) [[''a''], [''<x>'']]
       = Written (''<x>'' @ [nl] @ ''a'')"
  by code_simp

text \<open>
  C8, as amended. \<open>isSplLine\<close> holds exactly for the lines of two shapes: spaces and
  tabs, then \<open>![\<close>, any text without a line terminator, \<open>](\<close>, any text without a
  closing parenthesis, \<open>)\<close>, then spaces, tabs and newlines; or spaces and tabs, then
  \<open><\<close>, any text without a line terminator, \<open>>\<close>, then spaces, tabs and newlines.
  The text between \<open><\<close> and the last \<open>>\<close> may itself hold tags and prose.
\<close>

theorem isSplLine_shapes:
  "isSplLine l \<longleftrightarrow>
     (\<exists>ws a b ws'. l = ws @ ''!['' @ a @ '']('' @ b @ '')'' @ ws'
        \<and> set ws \<subseteq> {sp, tab} \<and> nl \<notin> set a \<and> cr \<notin> set a \<and> CHR '')'' \<notin> set b
        \<and> set ws' \<subseteq> {sp, tab, nl})
     \<or> (\<exists>ws a ws'. l = ws @ ''<'' @ a @ ''>'' @ ws'
        \<and> set ws \<subseteq> {sp, tab} \<and> nl \<notin> set a \<and> cr \<notin> set a \<and> set ws' \<subseteq> {sp, tab, nl})"
  unfolding isSplLine_def img_re_iff tag_re_iff ..

theorem isSplLine_shapes_witness:
  "isSplLine (''  '' @ ''<'' @ ''b>bold</b> text <i>x</i'' @ ''>'' @ '' '')"
proof -
  have "set ''  '' \<subseteq> {sp, tab}" "nl \<notin> set ''b>bold</b> text <i>x</i''"
    "cr \<notin> set ''b>bold</b> text <i>x</i''" "set '' '' \<subseteq> {sp, tab, nl}"
    by (simp_all add: sp_def tab_def nl_def cr_def)
  then show ?thesis
    using isSplLine_shapes [of "''  '' @ ''<'' @ ''b>bold</b> text <i>x</i'' @ ''>'' @ '' ''"]
    by blast
qed

text \<open>
  C8 as stated fails: \<open><b>bold</b> text <i>x</i>\<close> is classified structural although it
  is neither one single tag nor one image reference, and so is a line with two image
  references and prose between them.
\<close>

theorem single_tag_counterexample:
  "isSplLine ''<b>bold</b> text <i>x</i>''
   \<and> \<not> spec_tag_line ''<b>bold</b> text <i>x</i>''
   \<and> \<not> spec_image_line ''<b>bold</b> text <i>x</i>''
   \<and> isSplLine ''![a](b) and ![c](d)''
   \<and> \<not> spec_image_line ''![a](b) and ![c](d)''
   \<and> \<not> spec_tag_line ''![a](b) and ![c](d)''
   \<and> spec_tag_line '' <img src=y.png> '' \<and> spec_image_line ''![x](y.png)''"
  by code_simp

text \<open>
  C9. \<open>saveReadme\<close> writes the values of the entries it does not classify as removed, in
  the order of the diff, concatenated and then trimmed; an entry classified removed
  adds nothing. The fresh entries that \<open>asDiff\<close> builds are the lines, each followed by
  a newline.
\<close>

theorem saveReadme_drops_removed:
  "saveReadme diff = trim (concat (map pvalue (filter (\<lambda>p. classify p \<noteq> Removed) diff)))
   \<and> map pvalue (asDiff docblocks) = map (\<lambda>l. l @ [nl]) (concat docblocks)"
  by (simp add: saveReadme_closed asDiff_flat o_def pvalue_fresh_part)

text \<open>
  C10, as amended. A line is a documentation line exactly when a marker (two
  characters out of \<open>/\<close> and \<open>#\<close>, in any mix, then \<open>**\<close>) occurs in it, anywhere,
  followed by a space or by the end of the line. A line that ends with a marker, or
  with a marker and one space, gives the empty line; otherwise the payload is the text
  after the leftmost marker and its space, up to the first line terminator.
\<close>

theorem doc_line_recognised:
  "(xtract_doc_comment_1 l \<noteq> None \<longleftrightarrow> ends_with_marker l \<or> (\<exists>n. marker_space_at l n))
   \<and> (ends_with_marker l \<longrightarrow> xtract_doc_comment_1 l = Some [])
   \<and> (\<not> ends_with_marker l \<and> marker_space_at l n \<and> (\<forall>k<n. \<not> marker_space_at l k)
        \<longrightarrow> xtract_doc_comment_1 l
              = Some (takeWhile (\<lambda>c. c \<noteq> nl \<and> c \<noteq> cr) (drop (n + 5) l)))"
proof -
  have dotf: "holds dot = (\<lambda>c. c \<noteq> nl \<and> c \<noteq> cr)" by (auto simp: dot_def)
  have b: "xtract_doc_comment_1 l = Some []" if "ends_with_marker l"
    using that by (simp add: xtract_doc_comment_1_def search_end_marker)
  have c: "xtract_doc_comment_1 l = Some (takeWhile (\<lambda>c. c \<noteq> nl \<and> c \<noteq> cr) (drop (n + 5) l))"
    if "\<not> ends_with_marker l" "marker_space_at l n" "\<forall>k<n. \<not> marker_space_at l k" for n
  proof -
    have "\<forall>k<n. lit_prefix (marker @ [In [sp]]) (drop k l) = None"
      using that(3) by (auto simp: marker_space_at_iff)
    then have "search_lit (marker @ [In [sp]]) l = Some (drop (n + 5) l)"
      using marker_space_rest [OF that(2)] by (intro search_lit_at)
    then show ?thesis using that(1)
      by (simp add: xtract_doc_comment_1_def search_end_marker dotf)
  qed
  have a: "xtract_doc_comment_1 l \<noteq> None \<longleftrightarrow> ends_with_marker l \<or> (\<exists>n. marker_space_at l n)"
  proof (cases "ends_with_marker l")
    case True
    then show ?thesis using b by simp
  next
    case False
    show ?thesis
    proof (cases "search_lit (marker @ [In [sp]]) l")
      case None
      have "\<not> marker_space_at l n" for n
      proof
        assume m: "marker_space_at l n"
        define P where "P k = marker_space_at l k" for k
        have "P n" using m by (simp add: P_def)
        then obtain k where k: "P k" "\<forall>j<k. \<not> P j"
          using exists_least_iff [of P] by blast
        then have "xtract_doc_comment_1 l \<noteq> None" using c [of k] False by (simp add: P_def)
        then show False using None False
          by (simp add: xtract_doc_comment_1_def search_end_marker)
      qed
      then show ?thesis using None False
        by (simp add: xtract_doc_comment_1_def search_end_marker)
    next
      case (Some rest)
      then obtain n where "lit_prefix (marker @ [In [sp]]) (drop n l) = Some rest"
        using search_lit_Some by blast
      then have "marker_space_at l n" unfolding marker_space_at_iff by blast
      then show ?thesis using Some False
        by (auto simp: xtract_doc_comment_1_def search_end_marker)
    qed
  qed
  show ?thesis using a b c by blast
qed

theorem doc_line_recognised_witness:
  "xtract_doc_comment_1 ''x #/** a //** b'' = Some ''a //** b''
   \<and> xtract_doc_comment_1 ''code /#**'' = Some []
   \<and> xtract_doc_comment_1 ''//** a //** '' = Some []"
proof -
  let ?l = "''x #/** a //** b''"
  have e: "\<not> ends_with_marker ?l"
    unfolding search_end_marker [symmetric] by code_simp
  have "lit_prefix (marker @ [In [sp]]) (drop 2 ?l) = Some ''a //** b''" by code_simp
  then have m: "marker_space_at ?l 2" unfolding marker_space_at_iff by blast
  have "lit_prefix (marker @ [In [sp]]) (drop 0 ?l) = None"
    "lit_prefix (marker @ [In [sp]]) (drop (Suc 0) ?l) = None"
    by code_simp+
  then have f: "\<forall>k<2. \<not> marker_space_at ?l k"
    unfolding marker_space_at_iff by (auto dest!: less_2_cases)
  have t: "takeWhile (\<lambda>c. c \<noteq> nl \<and> c \<noteq> cr) (drop (2 + 5) ?l) = ''a //** b''"
    by code_simp
  have 1: "xtract_doc_comment_1 ?l = Some ''a //** b''"
    using doc_line_recognised [of ?l 2] e m f t by simp
  have "ends_with_marker ''code /#**''"
    unfolding search_end_marker [symmetric] by code_simp
  then have 2: "xtract_doc_comment_1 ''code /#**'' = Some []"
    using doc_line_recognised [of "''code /#**''" 0] by blast
  have "ends_with_marker ''//** a //** ''"
    unfolding search_end_marker [symmetric] by code_simp
  then have 3: "xtract_doc_comment_1 ''//** a //** '' = Some []"
    using doc_line_recognised [of "''//** a //** ''" 0] by blast
  show ?thesis using 1 2 3 by simp
qed

text \<open>
  C10 as stated fails: in \<open>//**foo\<close> the marker occurs, but neither a space nor the end
  of the line follows it, and the line is not a documentation line.
\<close>

theorem marker_without_space_counterexample:
  "search_lit marker ''//**foo'' = Some ''foo'' \<and> xtract_doc_comment_1 ''//**foo'' = None
   \<and> search_lit marker ''x = y //***'' = Some ''*'' \<and> xtract_doc_comment_1 ''x = y //***'' = None"
  by code_simp

end
